(* ===== verification/Maze_Prelude.thy ===== *)
theory Maze_Prelude
  imports Main "HOL-Library.Monad_Syntax" "HOL-Library.While_Combinator" "HOL-Library.Multiset"
begin

text \<open>
  Shared vocabulary of the maze development. The Python program keeps its maze as a
  list of rows, each row a list of one-character strings (\<open>"#"\<close> for a wall,
  \<open>" "\<close> for a path), and indexes it as \<open>maze[row][col]\<close> with Python integers.
  This theory fixes
  \<^item> the cell type (\<open>Wall\<close> for \<open>"#"\<close>, \<open>Open\<close> for \<open>" "\<close>: the program never
    stores any other string in the maze);
  \<^item> Python list indexing on \<open>int\<close> indices: a negative index counts from the end, an
    index out of range raises \<open>IndexError\<close>, written as the result \<open>None\<close>;
  \<^item> reading and writing \<open>maze[i][j]\<close> through these, and the lemmas the component
    theories share about them (collected in \<open>py_index_simps\<close>).
\<close>

named_theorems py_index_simps "Python indexing on in-range and out-of-range indices"

datatype cell = Wall | Open

type_synonym pos = "int \<times> int"
type_synonym maze = "cell list list"

subsection \<open>Python list indexing\<close>

text \<open>
  \<open>py_index n i\<close> is the position that the Python index \<open>i\<close> denotes in a list of
  length \<open>n\<close>, or \<open>None\<close> when \<open>xs[i]\<close> raises \<open>IndexError\<close>.
\<close>

definition py_index :: "nat \<Rightarrow> int \<Rightarrow> nat option" where
  "py_index n i =
     (let j = (if i < 0 then int n + i else i)
      in if 0 \<le> j \<and> j < int n then Some (nat j) else None)"

definition py_nth :: "'a list \<Rightarrow> int \<Rightarrow> 'a option" where
  "py_nth xs i = map_option (\<lambda>j. xs ! j) (py_index (length xs) i)"

definition py_update :: "'a list \<Rightarrow> int \<Rightarrow> 'a \<Rightarrow> 'a list option" where
  "py_update xs i v = map_option (\<lambda>j. xs[j := v]) (py_index (length xs) i)"

text \<open>\<open>maze[i][j]\<close> as an expression, and the statement \<open>maze[i][j] = v\<close>.\<close>

definition grid_get :: "'a list list \<Rightarrow> int \<Rightarrow> int \<Rightarrow> 'a option" where
  "grid_get m i j = do { row \<leftarrow> py_nth m i; py_nth row j }"

definition grid_set :: "'a list list \<Rightarrow> int \<Rightarrow> int \<Rightarrow> 'a \<Rightarrow> 'a list list option" where
  "grid_set m i j v = do { row \<leftarrow> py_nth m i; row' \<leftarrow> py_update row j v; py_update m i row' }"

subsection \<open>Rectangular grids\<close>

text \<open>A grid of \<open>h\<close> rows of \<open>w\<close> cells each; \<open>in_grid h w p\<close>: \<open>p\<close> indexes it
  without wrapping.\<close>

definition grid_dims :: "int \<Rightarrow> int \<Rightarrow> 'a list list \<Rightarrow> bool" where
  "grid_dims h w m \<longleftrightarrow> length m = nat h \<and> list_all (\<lambda>row. length row = nat w) m"

definition in_grid :: "int \<Rightarrow> int \<Rightarrow> pos \<Rightarrow> bool" where
  "in_grid h w p \<longleftrightarrow> 0 \<le> fst p \<and> fst p < h \<and> 0 \<le> snd p \<and> snd p < w"

text \<open>
  \<open>interior h w p\<close> is the range test of \<open>generate_maze\<close> (line 46,
  \<open>1 <= nx < height - 1 and 1 <= ny < width - 1\<close>); \<open>border_walls h w m\<close> says that
  every cell outside it is a wall.
\<close>

definition interior :: "int \<Rightarrow> int \<Rightarrow> pos \<Rightarrow> bool" where
  "interior h w p \<longleftrightarrow> 1 \<le> fst p \<and> fst p < h - 1 \<and> 1 \<le> snd p \<and> snd p < w - 1"

definition border_walls :: "int \<Rightarrow> int \<Rightarrow> maze \<Rightarrow> bool" where
  "border_walls h w m \<longleftrightarrow>
     (\<forall>a < length m. \<forall>b < length (m ! a). \<not> interior h w (int a, int b) \<longrightarrow> m ! a ! b = Wall)"

text \<open>The cell at an in-grid position (the total reading used in invariants).\<close>

definition cell_at :: "'a list list \<Rightarrow> pos \<Rightarrow> 'a" where
  "cell_at m p = m ! nat (fst p) ! nat (snd p)"

subsection \<open>Lemmas on indexing\<close>

lemma py_index_nonneg [py_index_simps]:
  "0 \<le> i \<Longrightarrow> py_index n i = (if i < int n then Some (nat i) else None)"
  by (simp add: py_index_def)

lemma py_index_Some_lt: "py_index n i = Some j \<Longrightarrow> j < n"
  by (auto simp: py_index_def Let_def split: if_splits)

text \<open>Python's index normalisation as arithmetic: an index in \<open>[-n, n)\<close> is taken
  modulo \<open>n\<close>.\<close>

lemma py_index_mod:
  "py_index n i = (if - int n \<le> i \<and> i < int n then Some (nat (i mod int n)) else None)"
proof (cases "- int n \<le> i \<and> i < int n")
  case True
  have "i mod int n = (if i < 0 then int n + i else i)"
  proof (cases "i < 0")
    case neg: True
    have "(i + int n) mod int n = i + int n"
      using True neg by (intro mod_pos_pos_trivial) simp_all
    then show ?thesis
      using neg by simp
  next
    case False
    then show ?thesis
      using True by (simp add: mod_pos_pos_trivial)
  qed
  then show ?thesis
    using True by (simp add: py_index_def Let_def)
next
  case False
  then show ?thesis
    by (auto simp: py_index_def Let_def)
qed

lemma py_nth_in [py_index_simps]:
  "0 \<le> i \<Longrightarrow> i < int (length xs) \<Longrightarrow> py_nth xs i = Some (xs ! nat i)"
  by (simp add: py_nth_def py_index_nonneg)

lemma py_update_in [py_index_simps]:
  "0 \<le> i \<Longrightarrow> i < int (length xs) \<Longrightarrow> py_update xs i v = Some (xs[nat i := v])"
  by (simp add: py_update_def py_index_nonneg)

lemma py_update_length: "py_update xs i v = Some ys \<Longrightarrow> length ys = length xs"
  by (auto simp: py_update_def)

lemma grid_get_Some_iff:
  "grid_get m i j = Some c \<longleftrightarrow>
     (\<exists>a b. py_index (length m) i = Some a \<and> py_index (length (m ! a)) j = Some b \<and>
            c = m ! a ! b)"
  by (auto simp: grid_get_def py_nth_def bind_eq_Some_conv)

lemma grid_set_Some_iff:
  "grid_set m i j v = Some m' \<longleftrightarrow>
     (\<exists>a b. py_index (length m) i = Some a \<and> py_index (length (m ! a)) j = Some b \<and>
            m' = m[a := (m ! a)[b := v]])"
  by (auto simp: grid_set_def py_nth_def py_update_def bind_eq_Some_conv py_index_Some_lt)

lemma grid_dims_nth:
  "grid_dims h w m \<Longrightarrow> k < length m \<Longrightarrow> length (m ! k) = nat w"
  by (simp add: grid_dims_def list_all_length)

lemma grid_dims_length: "grid_dims h w m \<Longrightarrow> length m = nat h"
  by (simp add: grid_dims_def)

lemma grid_get_in [py_index_simps]:
  assumes "grid_dims h w m" and "in_grid h w p"
  shows "grid_get m (fst p) (snd p) = Some (cell_at m p)"
  using assms grid_dims_nth [OF assms(1)]
  by (simp add: grid_get_def cell_at_def in_grid_def grid_dims_length py_nth_in)

lemma grid_set_in [py_index_simps]:
  assumes "grid_dims h w m" and "in_grid h w p"
  shows "grid_set m (fst p) (snd p) v =
           Some (m[nat (fst p) := (m ! nat (fst p))[nat (snd p) := v]])"
  using assms grid_dims_nth [OF assms(1)]
  by (simp add: grid_set_def in_grid_def grid_dims_length py_nth_in py_update_in)

lemma grid_dims_update:
  assumes "grid_dims h w m" and "in_grid h w p"
  shows "grid_dims h w (m[nat (fst p) := (m ! nat (fst p))[nat (snd p) := v]])"
  using assms
  by (auto simp: grid_dims_def in_grid_def list_all_length nth_list_update)

lemma cell_at_update:
  assumes "grid_dims h w m" and "in_grid h w p" and "in_grid h w q"
  shows "cell_at (m[nat (fst p) := (m ! nat (fst p))[nat (snd p) := v]]) q =
           (if q = p then v else cell_at m q)"
proof -
  have "nat (fst q) = nat (fst p) \<longleftrightarrow> fst q = fst p"
    and "nat (snd q) = nat (snd p) \<longleftrightarrow> snd q = snd p"
    using assms(2,3) by (auto simp: in_grid_def)
  then show ?thesis
    using assms grid_dims_nth [OF assms(1)]
    by (cases p, cases q) (auto simp: cell_at_def in_grid_def grid_dims_length nth_list_update)
qed

lemma interior_in_grid: "interior h w p \<Longrightarrow> in_grid h w p"
  by (simp add: interior_def in_grid_def)

lemma border_walls_open_interior:
  assumes "grid_dims h w m" and "border_walls h w m" and "interior h w p"
  shows "border_walls h w (m[nat (fst p) := (m ! nat (fst p))[nat (snd p) := Open]])"
proof -
  have "in_grid h w p"
    using assms(3) by (rule interior_in_grid)
  then show ?thesis
    using assms grid_dims_nth [OF assms(1)]
    by (cases p) (auto simp: border_walls_def in_grid_def grid_dims_length nth_list_update)
qed

text \<open>\<open>maze[i][j] = " "\<close> on an interior cell of a well-shaped grid: it succeeds, and the
  grid keeps its shape and border with only that cell changed.\<close>

lemma grid_set_open_interior:
  assumes dims: "grid_dims h w m" and bw: "border_walls h w m" and p: "interior h w p"
  obtains m' where "grid_set m (fst p) (snd p) Open = Some m'" and "grid_dims h w m'"
    and "border_walls h w m'"
    and "\<And>q. in_grid h w q \<Longrightarrow> cell_at m' q = (if q = p then Open else cell_at m q)"
proof -
  have g: "in_grid h w p"
    using p by (rule interior_in_grid)
  show ?thesis
    using that [OF grid_set_in [OF dims g] grid_dims_update [OF dims g]
        border_walls_open_interior [OF dims bw p] cell_at_update [OF dims g]] .
qed

lemma border_walls_cell_at:
  assumes "grid_dims h w m" and "border_walls h w m" and "in_grid h w p" and "cell_at m p = Open"
  shows "interior h w p"
proof (rule ccontr)
  assume ni: "\<not> interior h w p"
  let ?a = "nat (fst p)" and ?b = "nat (snd p)"
  have a: "?a < length m"
    using assms(3) grid_dims_length [OF assms(1)] by (auto simp: in_grid_def)
  then have ab: "?a < length m" "?b < length (m ! ?a)" "(int ?a, int ?b) = p"
    using assms(3) grid_dims_nth [OF assms(1) a] by (auto simp: in_grid_def)
  then have "m ! ?a ! ?b = Wall"
    using assms(2) ni unfolding border_walls_def by metis
  with assms(4) show False
    by (simp add: cell_at_def)
qed

lemma grid_update_same:
  "cell_at m p = v \<Longrightarrow> m[nat (fst p) := (m ! nat (fst p))[nat (snd p) := v]] = m"
  unfolding cell_at_def by (metis list_update_id)

lemma length_filter_change:
  assumes "distinct xs" and "t \<in> set xs" and "\<forall>q \<in> set xs. q \<noteq> t \<longrightarrow> P' q = P q"
  shows "length (filter P' xs) + (if P t then 1 else 0) = length (filter P xs) + (if P' t then 1 else 0)"
  using assms
proof (induction xs)
  case Nil
  then show ?case by simp
next
  case (Cons a xs)
  show ?case
  proof (cases "a = t")
    case True
    then have "filter P' xs = filter P xs"
      using Cons.prems by (auto intro: filter_cong)
    then show ?thesis
      using True by simp
  next
    case False
    then have "P' a = P a" and "length (filter P' xs) + (if P t then 1 else 0) =
        length (filter P xs) + (if P' t then 1 else 0)"
      using Cons.prems Cons.IH by auto
    then show ?thesis
      by simp
  qed
qed

lemma length_filter_single:
  assumes "distinct xs" and "a \<in> set xs" and "\<forall>q \<in> set xs. P q \<longleftrightarrow> q = a"
  shows "length (filter P xs) = 1"
proof -
  have "set (filter P xs) = {a}"
    using assms(2,3) by auto
  then have "card (set (filter P xs)) = 1"
    by simp
  then show ?thesis
    using distinct_card [OF distinct_filter [OF assms(1)]] by metis
qed

lemma length_filter_two_open:
  assumes "distinct xs" and "t \<in> set xs" and "u \<in> set xs" and "t \<noteq> u"
    and "cell_at m t \<noteq> Open" and "cell_at m u \<noteq> Open"
    and "\<forall>q \<in> set xs. cell_at m' q = Open \<longleftrightarrow> q = t \<or> q = u \<or> cell_at m q = Open"
  shows "length (filter (\<lambda>q. cell_at m' q = Open \<and> R q) xs) =
           length (filter (\<lambda>q. cell_at m q = Open \<and> R q) xs) +
           (if R t then 1 else 0) + (if R u then 1 else 0)"
proof -
  let ?Q0 = "\<lambda>q. cell_at m q = Open \<and> R q" and ?Q1 = "\<lambda>q. (q = u \<or> cell_at m q = Open) \<and> R q"
    and ?Q2 = "\<lambda>q. cell_at m' q = Open \<and> R q"
  have "length (filter ?Q1 xs) + (if ?Q0 u then 1 else 0) = length (filter ?Q0 xs) + (if ?Q1 u then 1 else 0)"
    by (rule length_filter_change [OF assms(1,3)]) auto
  moreover have "length (filter ?Q2 xs) + (if ?Q1 t then 1 else 0) = length (filter ?Q1 xs) + (if ?Q2 t then 1 else 0)"
    by (rule length_filter_change [OF assms(1,2)]) (use assms(7) in auto)
  ultimately show ?thesis
    using assms(4-7) assms(2) by auto
qed

lemma mset_take_eq:
  assumes "mset ys = mset xs" and "drop n ys = drop n xs"
  shows "mset (take n ys) = mset (take n xs)"
proof -
  have "mset (take n ys) + mset (drop n ys) = mset (take n xs) + mset (drop n xs)"
    using assms(1) by (metis append_take_drop_id mset_append)
  then show ?thesis
    using assms(2) by simp
qed

lemma length_filter_product:
  "length (filter (\<lambda>(a, b). P a \<and> Q b) (List.product xs ys)) =
     length (filter P xs) * length (filter Q ys)"
  by (induction xs) (simp_all add: filter_map comp_def case_prod_beta)

text \<open>A loop that runs \<open>M\<close> iterations: the condition holds before each of the first
  \<open>M\<close> and fails after them.\<close>

lemma while_option_steps:
  assumes "\<forall>n < M. b ((c ^^ n) s)" and "\<not> b ((c ^^ M) s)"
  shows "while_option b c s = Some ((c ^^ M) s)"
proof -
  have "(LEAST k. \<not> b ((c ^^ k) s)) = M"
  proof (rule Least_equality)
    show "\<not> b ((c ^^ M) s)"
      using assms(2) .
  next
    fix y
    assume "\<not> b ((c ^^ y) s)"
    then show "M \<le> y"
      using assms(1) not_le by blast
  qed
  then show ?thesis
    using assms(2) unfolding while_option_def by auto
qed

end
