(* ===== verification/Shuffle.thy ===== *)
theory Shuffle
  imports Maze_Prelude
begin

text \<open>
  \<open>random.shuffle\<close>, which \<open>generate_maze\<close> calls on its list of directions once per
  iteration. CPython's implementation is the Fisher-Yates shuffle:
  \<^verbatim>\<open>
  for i in reversed(range(1, len(x))):
      j = randbelow(i + 1)
      x[i], x[j] = x[j], x[i]
  \<close>
  The generator's state is abstracted as a stream \<open>rs\<close> of draws and a position \<open>k\<close>
  in it: the draw \<open>randbelow(n)\<close> made at position \<open>k\<close> is \<open>rs k mod n\<close>. Every
  sequence of results in range is some stream (\<open>r mod n = r\<close> for \<open>r < n\<close>), so a
  theorem over all streams covers every seed. The shuffle returns the permuted list and
  the position after its draws.
\<close>

type_synonym rng = "nat \<Rightarrow> nat"

text \<open>\<open>shuffle_from rs k i xs\<close> runs the loop for \<open>i, i-1, \<dots>, 1\<close>.\<close>

fun shuffle_from :: "rng \<Rightarrow> nat \<Rightarrow> nat \<Rightarrow> 'a list \<Rightarrow> 'a list \<times> nat" where
  "shuffle_from rs k 0 xs = (xs, k)"
| "shuffle_from rs k (Suc i) xs =
     (let j = rs k mod (Suc i + 1)
      in shuffle_from rs (Suc k) i (xs[Suc i := xs ! j, j := xs ! Suc i]))"

definition random_shuffle :: "rng \<Rightarrow> nat \<Rightarrow> 'a list \<Rightarrow> 'a list \<times> nat" where
  "random_shuffle rs k xs = shuffle_from rs k (length xs - 1) xs"

subsection \<open>The shuffle permutes its list\<close>

lemma shuffle_from_mset:
  "i < length xs \<Longrightarrow> mset (fst (shuffle_from rs k i xs)) = mset xs"
proof (induction rs k i xs rule: shuffle_from.induct)
  case (1 rs k xs)
  then show ?case by simp
next
  case (2 rs k i xs)
  let ?j = "rs k mod (Suc i + 1)"
  have "?j < Suc (Suc i)"
    by simp
  with "2.prems" have j: "?j < length xs"
    by linarith
  let ?ys = "xs[Suc i := xs ! ?j, ?j := xs ! Suc i]"
  have "mset ?ys = mset xs"
    using j "2.prems" by (rule mset_swap)
  moreover have "i < length ?ys"
    using "2.prems" by simp
  ultimately show ?case
    using "2.IH" by (simp add: Let_def)
qed

lemma shuffle_from_length: "length (fst (shuffle_from rs k i xs)) = length xs"
  by (induction rs k i xs rule: shuffle_from.induct) (simp_all add: Let_def)

lemma shuffle_from_pos: "snd (shuffle_from rs k i xs) = k + i"
  by (induction rs k i xs rule: shuffle_from.induct) (simp_all add: Let_def)

lemma random_shuffle_mset: "mset (fst (random_shuffle rs k xs)) = mset xs"
proof (cases xs)
  case Nil
  then show ?thesis by (simp add: random_shuffle_def)
next
  case (Cons x ys)
  then show ?thesis by (simp add: random_shuffle_def shuffle_from_mset)
qed

lemma random_shuffle_set: "set (fst (random_shuffle rs k xs)) = set xs"
  by (metis random_shuffle_mset set_mset_mset)

lemma random_shuffle_pos: "snd (random_shuffle rs k xs) = k + (length xs - 1)"
  by (simp add: random_shuffle_def shuffle_from_pos)

subsection \<open>Every permutation is an outcome\<close>

text \<open>The loop only reads the draws from position \<open>k\<close> on, and, run from \<open>i\<close>, it
  can put any element of \<open>xs ! 0 .. xs ! i\<close> at position \<open>i\<close> and leave the positions
  above \<open>i\<close> alone; so every rearrangement of the first \<open>i + 1\<close> elements is reached
  by a suitable stream.\<close>

lemma shuffle_from_cong:
  "\<forall>n\<ge>k. rs n = rs' n \<Longrightarrow> shuffle_from rs k i xs = shuffle_from rs' k i xs"
  by (induction rs k i xs rule: shuffle_from.induct) (simp_all add: Let_def)

text \<open>One step of the loop run backwards: the element wanted at position \<open>i + 1\<close> is
  among \<open>xs ! 0 .. xs ! (i + 1)\<close>, and swapping it there matches the wanted list from
  position \<open>i + 1\<close> on.\<close>

lemma swap_to_match:
  assumes l: "Suc i < length xs" and m: "mset ys = mset xs"
    and d: "drop (Suc (Suc i)) ys = drop (Suc (Suc i)) xs"
  obtains j where "j < Suc (Suc i)" and "mset ys = mset (xs[Suc i := xs ! j, j := xs ! Suc i])"
    and "drop (Suc i) (xs[Suc i := xs ! j, j := xs ! Suc i]) = drop (Suc i) ys"
proof -
  have ly: "length ys = length xs"
    using mset_eq_length [OF m] .
  have "ys ! Suc i \<in> set (take (Suc (Suc i)) ys)"
    using l ly by (simp add: in_set_conv_nth) (metis lessI nth_take length_take min.absorb1 Suc_leI)
  then have "ys ! Suc i \<in> set (take (Suc (Suc i)) xs)"
    using mset_take_eq [OF m d] by (metis set_mset_mset)
  then obtain j where j: "j < Suc (Suc i)" and xj: "xs ! j = ys ! Suc i"
    using l by (auto simp: in_set_conv_nth)
  define zs where "zs = xs[Suc i := xs ! j, j := xs ! Suc i]"
  have jl: "j < length xs"
    using j l by linarith
  have "mset ys = mset zs"
    using m mset_swap [OF jl l] by (simp add: zs_def)
  moreover have "drop (Suc i) zs = drop (Suc i) ys"
  proof (rule nth_equalityI)
    show "length (drop (Suc i) zs) = length (drop (Suc i) ys)"
      using ly by (simp add: zs_def)
  next
    fix n assume n: "n < length (drop (Suc i) zs)"
    show "drop (Suc i) zs ! n = drop (Suc i) ys ! n"
    proof (cases n)
      case 0
      then show ?thesis
        using n xj jl l ly by (cases "j = Suc i") (simp_all add: zs_def nth_list_update)
    next
      case (Suc n')
      have "drop (Suc (Suc i)) ys ! n' = drop (Suc (Suc i)) xs ! n'"
        using d by simp
      then show ?thesis
        using n j Suc l ly by (simp add: zs_def nth_list_update)
    qed
  qed
  ultimately show ?thesis
    using that j by (simp add: zs_def)
qed

lemma shuffle_from_complete:
  "i < length xs \<Longrightarrow> mset ys = mset xs \<Longrightarrow> drop (Suc i) ys = drop (Suc i) xs \<Longrightarrow>
     \<exists>rs. fst (shuffle_from rs k i xs) = ys"
proof (induction i arbitrary: k xs)
  case 0
  then have "mset (take 1 ys) = mset (take 1 xs)"
    by (intro mset_take_eq) simp_all
  moreover obtain x xs' where xs: "xs = x # xs'"
    using "0.prems"(1) by (cases xs) auto
  moreover obtain y ys' where ys: "ys = y # ys'"
    using "0.prems"(2) xs by (cases ys) auto
  ultimately have "ys = xs"
    using "0.prems"(3) by simp
  then show ?case
    by simp
next
  case (Suc i)
  obtain j where j: "j < Suc (Suc i)" and mz: "mset ys = mset (xs[Suc i := xs ! j, j := xs ! Suc i])"
    and dz: "drop (Suc i) (xs[Suc i := xs ! j, j := xs ! Suc i]) = drop (Suc i) ys"
    using swap_to_match [OF Suc.prems] .
  obtain rs where rs: "fst (shuffle_from rs (Suc k) i (xs[Suc i := xs ! j, j := xs ! Suc i])) = ys"
    using Suc.IH [OF _ mz dz [symmetric]] Suc.prems(1) by auto
  have "shuffle_from (rs(k := j)) (Suc k) i (xs[Suc i := xs ! j, j := xs ! Suc i]) =
        shuffle_from rs (Suc k) i (xs[Suc i := xs ! j, j := xs ! Suc i])"
    by (rule shuffle_from_cong) simp
  then have "fst (shuffle_from (rs(k := j)) k (Suc i) xs) = ys"
    using rs j by (simp add: Let_def)
  then show ?case
    by blast
qed

text \<open>The outcomes of the shuffle over all streams are exactly the permutations of its
  argument.\<close>

lemma random_shuffle_outcomes:
  "{fst (random_shuffle rs k xs) | rs. True} = {ys. mset ys = mset xs}"
proof (intro equalityI subsetI)
  fix ys assume "ys \<in> {fst (random_shuffle rs k xs) | rs. True}"
  then show "ys \<in> {ys. mset ys = mset xs}"
    using random_shuffle_mset by auto
next
  fix ys assume "ys \<in> {ys. mset ys = mset xs}"
  then have m: "mset ys = mset xs"
    by simp
  show "ys \<in> {fst (random_shuffle rs k xs) | rs. True}"
  proof (cases xs)
    case Nil
    then show ?thesis
      using m by (simp add: random_shuffle_def)
  next
    case (Cons x xs')
    have "drop (Suc (length xs - 1)) ys = drop (Suc (length xs - 1)) xs"
      using Cons mset_eq_length [OF m] by simp
    then obtain rs where "fst (shuffle_from rs k (length xs - 1) xs) = ys"
      using shuffle_from_complete [OF _ m] Cons by fastforce
    then show ?thesis
      by (auto simp: random_shuffle_def)
  qed
qed

end
