(* ===== verification/Maze_Generator.thy ===== *)
theory Maze_Generator
  imports Shuffle
begin

text \<open>
  The maze generator of \<open>src/maze_game.py\<close>: \<open>initialize_maze\<close> (lines 30-33) and
  \<open>generate_maze\<close> (lines 37-54), a randomized depth-first search with an explicit
  stack that carves passages two cells at a time. The Python stack is a list whose top
  is its last element (\<open>stack[-1]\<close>, \<open>append\<close>, \<open>pop\<close>); the model keeps that order.
  The loop \<open>while stack:\<close> is \<open>while_option\<close> over the loop's state; the body can
  raise \<open>IndexError\<close> (a \<open>None\<close> state), which ends the loop.
\<close>

subsection \<open>Definitions\<close>

definition initialize_maze :: "int \<Rightarrow> int \<Rightarrow> maze option" where
  "initialize_maze width height =
     grid_set (replicate (nat height) (replicate (nat width) Wall)) 1 1 Open"

definition directions0 :: "pos list" where
  "directions0 = [(-2, 0), (2, 0), (0, -2), (0, 2)]"

text \<open>
  The \<open>for dx, dy in directions: ... break / else: stack.pop()\<close> scan:
  \<open>Some (Some (dx, dy))\<close> is the direction the loop breaks at, \<open>Some None\<close> the
  \<open>else\<close> branch (no candidate qualified), \<open>None\<close> an \<open>IndexError\<close> of the read
  \<open>maze[nx][ny]\<close>. The read is made only when both range tests hold, as Python's
  \<open>and\<close> short-circuits.
\<close>

fun scan_directions :: "maze \<Rightarrow> int \<Rightarrow> int \<Rightarrow> pos \<Rightarrow> pos list \<Rightarrow> pos option option" where
  "scan_directions m width height (x, y) [] = Some None"
| "scan_directions m width height (x, y) ((dx, dy) # ds) =
     (let nx = x + dx; ny = y + dy
      in if 1 \<le> nx \<and> nx < height - 1 \<and> 1 \<le> ny \<and> ny < width - 1
         then (case grid_get m nx ny of
                 None \<Rightarrow> None
               | Some c \<Rightarrow> if c = Wall then Some (Some (dx, dy))
                          else scan_directions m width height (x, y) ds)
         else scan_directions m width height (x, y) ds)"

record gen_state =
  gmaze :: maze
  gstack :: "pos list"
  gdirs :: "pos list"
  grng :: nat

text \<open>One iteration of the \<open>while stack:\<close> body (lines 42-52), for a non-empty stack.\<close>

definition gen_iteration :: "rng \<Rightarrow> int \<Rightarrow> int \<Rightarrow> gen_state \<Rightarrow> gen_state option" where
  "gen_iteration rs width height g =
     (let (x, y) = last (gstack g);
          (ds, k) = random_shuffle rs (grng g) (gdirs g);
          g' = g\<lparr>gdirs := ds, grng := k\<rparr>
      in case scan_directions (gmaze g) width height (x, y) ds of
           None \<Rightarrow> None
         | Some None \<Rightarrow> Some (g'\<lparr>gstack := butlast (gstack g)\<rparr>)
         | Some (Some (dx, dy)) \<Rightarrow> do {
             m1 \<leftarrow> grid_set (gmaze g) (x + dx div 2) (y + dy div 2) Open;
             m2 \<leftarrow> grid_set m1 (x + dx) (y + dy) Open;
             Some (g'\<lparr>gmaze := m2, gstack := gstack g @ [(x + dx, y + dy)]\<rparr>)
           })"

definition gen_continue :: "gen_state option \<Rightarrow> bool" where
  "gen_continue s = (case s of None \<Rightarrow> False | Some g \<Rightarrow> gstack g \<noteq> [])"

definition gen_body :: "rng \<Rightarrow> int \<Rightarrow> int \<Rightarrow> gen_state option \<Rightarrow> gen_state option" where
  "gen_body rs width height s = (case s of None \<Rightarrow> None | Some g \<Rightarrow> gen_iteration rs width height g)"

text \<open>
  \<open>generate_maze rs k maze width height\<close>: the outer \<open>None\<close> would be a loop that
  never ends, the inner \<open>None\<close> an \<open>IndexError\<close>; \<open>k\<close> is the position of the random
  stream when the function is called.
\<close>

definition gen_init :: "nat \<Rightarrow> maze \<Rightarrow> gen_state" where
  "gen_init k maze = \<lparr>gmaze = maze, gstack = [(1, 1)], gdirs = directions0, grng = k\<rparr>"

definition generate_maze :: "rng \<Rightarrow> nat \<Rightarrow> maze \<Rightarrow> int \<Rightarrow> int \<Rightarrow> maze option option" where
  "generate_maze rs k maze width height =
     map_option (map_option gmaze)
       (while_option gen_continue (gen_body rs width height) (Some (gen_init k maze)))"

subsection \<open>Invariants and the termination measure\<close>

text \<open>
  \<open>wall_cells m\<close>: the positions of the walls of \<open>m\<close>; \<open>gen_measure\<close>: twice their
  number plus the stack's length (0 for an \<open>IndexError\<close>), the measure that decreases
  at every iteration of the loop.
\<close>

definition wall_cells :: "maze \<Rightarrow> (nat \<times> nat) set" where
  "wall_cells m = {(a, b). a < length m \<and> b < length (m ! a) \<and> m ! a ! b = Wall}"

definition gen_measure :: "gen_state option \<Rightarrow> nat" where
  "gen_measure s =
     (case s of None \<Rightarrow> 0 | Some g \<Rightarrow> 2 * card (wall_cells (gmaze g)) + length (gstack g) + 1)"

text \<open>
  \<open>gen_inv\<close>: while the loop runs, the grid keeps its \<open>height \<times> width\<close> shape, every
  cell outside the interior stays a wall, every stacked cell is interior, the direction
  list is a permutation of the four steps of length 2, and the start cell is open.
\<close>

definition gen_inv :: "int \<Rightarrow> int \<Rightarrow> gen_state \<Rightarrow> bool" where
  "gen_inv height width g \<longleftrightarrow>
     grid_dims height width (gmaze g) \<and> border_walls height width (gmaze g) \<and>
     (\<forall>p \<in> set (gstack g). interior height width p) \<and> set (gdirs g) = set directions0 \<and>
     cell_at (gmaze g) (1, 1) = Open"

text \<open>
  \<open>scan_candidate\<close>: the specification's choice of the next cell, a direction whose
  target two steps away is inside the range test of line 46 and still a wall.
\<close>

definition scan_candidate :: "maze \<Rightarrow> int \<Rightarrow> int \<Rightarrow> pos \<Rightarrow> pos \<Rightarrow> bool" where
  "scan_candidate m height width p d \<longleftrightarrow>
     interior height width (fst p + fst d, snd p + snd d) \<and> cell_at m (fst p + fst d, snd p + snd d) = Wall"

subsection \<open>Termination\<close>

text \<open>
  Every iteration either pops the stack or opens a cell that was a wall (the target
  \<open>maze[nx][ny]\<close> was read as \<open>"#"\<close>), and no iteration closes a cell. So twice
  the number of wall cells plus the stack's length decreases; an \<open>IndexError\<close> ends
  the loop. This holds for any grid, dimensions, stream and directions.
\<close>

lemma finite_wall_cells: "finite (wall_cells m)"
proof (rule finite_subset)
  show "wall_cells m \<subseteq> (SIGMA a:{..<length m}. {..<length (m ! a)})"
    by (auto simp: wall_cells_def)
qed auto

lemma wall_cells_open:
  "a < length m \<Longrightarrow> wall_cells (m[a := (m ! a)[b := Open]]) = wall_cells m - {(a, b)}"
  by (cases "b < length (m ! a)")
     (auto simp: wall_cells_def nth_list_update nth_list_update_neq split: if_splits)

lemma grid_set_open_wall_cells:
  "grid_set m i j Open = Some m' \<Longrightarrow> wall_cells m' \<subseteq> wall_cells m"
  by (auto simp: grid_set_Some_iff wall_cells_open dest: py_index_Some_lt)

text \<open>Reading a wall and then writing \<open>Open\<close> at the same indices removes that wall.\<close>

lemma grid_set_open_removes_wall:
  assumes get: "grid_get m1 i j = Some Wall" and set: "grid_set m1 i j Open = Some m2"
  shows "wall_cells m2 \<subset> wall_cells m1"
proof -
  from get obtain a b where a: "py_index (length m1) i = Some a"
    and b: "py_index (length (m1 ! a)) j = Some b" and w: "m1 ! a ! b = Wall"
    by (auto simp: grid_get_Some_iff)
  have "m2 = m1[a := (m1 ! a)[b := Open]]"
    using set a b by (auto simp: grid_set_Some_iff)
  moreover have "(a, b) \<in> wall_cells m1"
    using a b w by (auto simp: wall_cells_def dest: py_index_Some_lt)
  moreover have "a < length m1"
    using a by (rule py_index_Some_lt)
  ultimately show ?thesis
    by (auto simp: wall_cells_open)
qed

lemma grid_get_after_open:
  assumes "grid_get m i j = Some Wall" and "grid_set m i' j' Open = Some m1"
  shows "grid_get m1 i j = Some Wall \<or> wall_cells m1 \<subset> wall_cells m"
proof -
  from assms(1) obtain a b where a: "py_index (length m) i = Some a"
    and b: "py_index (length (m ! a)) j = Some b" and w: "m ! a ! b = Wall"
    by (auto simp: grid_get_Some_iff)
  from assms(2) obtain a' b' where a': "py_index (length m) i' = Some a'"
    and m1: "m1 = m[a' := (m ! a')[b' := Open]]"
    by (auto simp: grid_set_Some_iff)
  have la: "a < length m" "a' < length m"
    using a a' by (auto dest: py_index_Some_lt)
  have ab: "(a, b) \<in> wall_cells m"
    using a b w la by (auto simp: wall_cells_def dest: py_index_Some_lt)
  show ?thesis
  proof (cases "(a, b) = (a', b')")
    case True
    then have "wall_cells m1 = wall_cells m - {(a, b)}"
      using la m1 by (simp add: wall_cells_open)
    with ab show ?thesis by blast
  next
    case False
    have len: "length m1 = length m" "length (m1 ! a) = length (m ! a)"
      using la m1 by (simp_all add: nth_list_update)
    have "m1 ! a ! b = m ! a ! b"
      using False la m1 by (cases "a = a'") (simp_all add: nth_list_update_neq)
    then have "grid_get m1 i j = Some Wall"
      using a b w len by (auto simp: grid_get_Some_iff)
    then show ?thesis ..
  qed
qed

lemma scan_directions_wall:
  "scan_directions m width height (x, y) ds = Some (Some (dx, dy)) \<Longrightarrow>
     grid_get m (x + dx) (y + dy) = Some Wall"
  by (induction m width height "(x, y)" ds rule: scan_directions.induct)
     (auto simp: Let_def split: if_splits option.splits)

lemma push_decreases:
  assumes get: "grid_get m (x + dx) (y + dy) = Some Wall"
    and s1: "grid_set m i j Open = Some m1"
    and s2: "grid_set m1 (x + dx) (y + dy) Open = Some m2"
  shows "card (wall_cells m2) < card (wall_cells m)"
proof -
  have le1: "wall_cells m1 \<subseteq> wall_cells m"
    using s1 by (rule grid_set_open_wall_cells)
  have "wall_cells m2 \<subset> wall_cells m"
    using grid_get_after_open [OF get s1]
  proof
    assume "grid_get m1 (x + dx) (y + dy) = Some Wall"
    then have "wall_cells m2 \<subset> wall_cells m1"
      using s2 by (rule grid_set_open_removes_wall)
    with le1 show ?thesis by blast
  next
    assume "wall_cells m1 \<subset> wall_cells m"
    moreover have "wall_cells m2 \<subseteq> wall_cells m1"
      using s2 by (rule grid_set_open_wall_cells)
    ultimately show ?thesis by blast
  qed
  then show ?thesis
    by (simp add: psubset_card_mono finite_wall_cells)
qed

lemma gen_iteration_split:
  assumes "last (gstack g) = (x, y)" and "random_shuffle rs (grng g) (gdirs g) = (ds, k)"
  shows "gen_iteration rs width height g =
     (case scan_directions (gmaze g) width height (x, y) ds of
        None \<Rightarrow> None
      | Some None \<Rightarrow> Some (g\<lparr>gdirs := ds, grng := k, gstack := butlast (gstack g)\<rparr>)
      | Some (Some (dx, dy)) \<Rightarrow> do {
          m1 \<leftarrow> grid_set (gmaze g) (x + dx div 2) (y + dy div 2) Open;
          m2 \<leftarrow> grid_set m1 (x + dx) (y + dy) Open;
          Some (g\<lparr>gdirs := ds, grng := k, gmaze := m2, gstack := gstack g @ [(x + dx, y + dy)]\<rparr>)
        })"
  using assms by (simp add: gen_iteration_def Let_def)

text \<open>The three ways an iteration ends, for any state: an \<open>IndexError\<close>, a pop after a
  scan that found nothing, or a push after two writes.\<close>

lemma gen_iteration_shapes:
  obtains (error) "gen_iteration rs width height g = None"
  | (pop) x y ds k where "last (gstack g) = (x, y)" "random_shuffle rs (grng g) (gdirs g) = (ds, k)"
      "scan_directions (gmaze g) width height (x, y) ds = Some None"
      "gen_iteration rs width height g = Some (g\<lparr>gdirs := ds, grng := k, gstack := butlast (gstack g)\<rparr>)"
  | (push) x y ds k dx dy m1 m2 where "last (gstack g) = (x, y)"
      "random_shuffle rs (grng g) (gdirs g) = (ds, k)"
      "scan_directions (gmaze g) width height (x, y) ds = Some (Some (dx, dy))"
      "grid_set (gmaze g) (x + dx div 2) (y + dy div 2) Open = Some m1"
      "grid_set m1 (x + dx) (y + dy) Open = Some m2"
      "gen_iteration rs width height g =
         Some (g\<lparr>gdirs := ds, grng := k, gmaze := m2, gstack := gstack g @ [(x + dx, y + dy)]\<rparr>)"
proof -
  obtain x y where xy: "last (gstack g) = (x, y)"
    by fastforce
  obtain ds k where dk: "random_shuffle rs (grng g) (gdirs g) = (ds, k)"
    by fastforce
  note it = gen_iteration_split [OF xy dk, of width height]
  consider "scan_directions (gmaze g) width height (x, y) ds = None"
    | "scan_directions (gmaze g) width height (x, y) ds = Some None"
    | dx dy where "scan_directions (gmaze g) width height (x, y) ds = Some (Some (dx, dy))"
    by (metis option.exhaust surj_pair)
  then show ?thesis
  proof cases
    case (3 dx dy)
    then show ?thesis
      using it push [OF xy dk 3] error
      by (cases "grid_set (gmaze g) (x + dx div 2) (y + dy div 2) Open";
          auto split: Option.bind_splits)
  qed (use it pop [OF xy dk] error in simp_all)
qed

lemma gen_body_decreases:
  assumes "gen_continue s"
  shows "gen_measure (gen_body rs width height s) < gen_measure s"
proof -
  from assms obtain g where s: "s = Some g" and ne: "gstack g \<noteq> []"
    by (auto simp: gen_continue_def split: option.splits)
  have body: "gen_body rs width height s = gen_iteration rs width height g"
    using s by (simp add: gen_body_def)
  show ?thesis
  proof (cases rule: gen_iteration_shapes [of rs width height g])
    case error
    then show ?thesis
      using s body by (simp add: gen_measure_def)
  next
    case (pop x y ds k)
    then show ?thesis
      using s body ne by (simp add: gen_measure_def)
  next
    case (push x y ds k dx dy m1 m2)
    have "card (wall_cells m2) < card (wall_cells (gmaze g))"
      using push_decreases [OF scan_directions_wall [OF push(3)] push(4,5)] .
    then show ?thesis
      using s body push(6) by (simp add: gen_measure_def)
  qed
qed

lemma gen_loop_terminates:
  "\<exists>t. while_option gen_continue (gen_body rs width height) (Some (gen_init k maze)) = Some t"
  by (rule measure_while_option_Some [where P = "\<lambda>_. True" and f = gen_measure])
     (simp_all add: gen_body_decreases)

text \<open>
  C7. \<open>generate_maze\<close> returns on every input: the \<open>while stack:\<close> loop ends
  for every maze, every width and height and every random stream.
\<close>

theorem generate_maze_terminates: "\<exists>r. generate_maze rs k maze width height = Some r"
  using gen_loop_terminates [of rs width height k maze] by (auto simp: generate_maze_def)

subsection \<open>The loop invariant and the absence of IndexError\<close>

lemma scan_directions_no_error:
  "grid_dims height width m \<Longrightarrow> scan_directions m width height (x, y) ds \<noteq> None"
proof (induction m width height "(x, y)" ds rule: scan_directions.induct)
  case (1 m width height)
  then show ?case by simp
next
  case (2 m width height dx dy ds)
  have "grid_get m (x + dx) (y + dy) = Some (cell_at m (x + dx, y + dy))"
    if "interior height width (x + dx, y + dy)"
    using grid_get_in [OF "2.prems" interior_in_grid [OF that]] by simp
  with 2 show ?case
    by (auto simp: Let_def interior_def)
qed

lemma scan_directions_found:
  "scan_directions m width height (x, y) ds = Some (Some (dx, dy)) \<Longrightarrow>
     (dx, dy) \<in> set ds \<and> interior height width (x + dx, y + dy)"
  by (induction m width height "(x, y)" ds rule: scan_directions.induct)
     (auto simp: Let_def interior_def split: if_splits option.splits)

lemma directions0_midpoint:
  assumes "(dx, dy) \<in> set directions0" and "interior h w (x, y)" and "interior h w (x + dx, y + dy)"
  shows "interior h w (x + dx div 2, y + dy div 2)"
  using assms by (auto simp: directions0_def interior_def)

lemma gen_iteration_inv:
  assumes inv: "gen_inv height width g" and ne: "gstack g \<noteq> []"
  shows "\<exists>g'. gen_iteration rs width height g = Some g' \<and> gen_inv height width g'"
proof -
  obtain x y where xy: "last (gstack g) = (x, y)"
    by fastforce
  obtain ds k where dk: "random_shuffle rs (grng g) (gdirs g) = (ds, k)"
    by fastforce
  note it = gen_iteration_split [OF xy dk, of width height]
  have dims: "grid_dims height width (gmaze g)" and bw: "border_walls height width (gmaze g)"
    and stk: "\<forall>p \<in> set (gstack g). interior height width p"
    and dirs: "set (gdirs g) = set directions0" and o11: "cell_at (gmaze g) (1, 1) = Open"
    using inv by (simp_all add: gen_inv_def)
  have top: "interior height width (x, y)"
    using stk ne xy by (metis last_in_set)
  have ds: "set ds = set directions0"
    using dk dirs random_shuffle_set [of rs "grng g" "gdirs g"] by simp
  obtain r where scan: "scan_directions (gmaze g) width height (x, y) ds = Some r"
    using scan_directions_no_error [OF dims] by blast
  show ?thesis
  proof (cases r)
    case None
    have "set (butlast (gstack g)) \<subseteq> set (gstack g)"
      by (rule in_set_butlastD [THEN subsetI])
    then show ?thesis
      using it scan None dims bw stk ds o11 by (auto simp: gen_inv_def)
  next
    case (Some d)
    obtain dx dy where d: "d = (dx, dy)" by fastforce
    have found: "(dx, dy) \<in> set ds" "interior height width (x + dx, y + dy)"
      using scan_directions_found [of "gmaze g" width height x y ds dx dy] scan Some d by simp_all
    let ?mid = "(x + dx div 2, y + dy div 2)" and ?tgt = "(x + dx, y + dy)"
    have mid: "interior height width ?mid"
      using directions0_midpoint [of dx dy height width x y] found ds top by simp
    obtain m1 where s1: "grid_set (gmaze g) (x + dx div 2) (y + dy div 2) Open = Some m1"
      and dims1: "grid_dims height width m1" and bw1: "border_walls height width m1"
      and c1: "\<And>q. in_grid height width q \<Longrightarrow> cell_at m1 q = (if q = ?mid then Open else cell_at (gmaze g) q)"
      using grid_set_open_interior [OF dims bw mid] by auto
    obtain m2 where s2: "grid_set m1 (x + dx) (y + dy) Open = Some m2"
      and dims2: "grid_dims height width m2" and bw2: "border_walls height width m2"
      and c2: "\<And>q. in_grid height width q \<Longrightarrow> cell_at m2 q = (if q = ?tgt then Open else cell_at m1 q)"
      using grid_set_open_interior [OF dims1 bw1 found(2)] by auto
    have "in_grid height width (1, 1)"
      using top by (auto simp: interior_def in_grid_def)
    then have o2: "cell_at m2 (1, 1) = Open"
      using o11 c1 c2 by simp
    show ?thesis
      using it scan Some d s1 s2 dims2 bw2 stk found ds o2 by (auto simp: gen_inv_def)
  qed
qed

lemma gen_init_inv:
  assumes "3 \<le> height" and "3 \<le> width" and "grid_dims height width maze"
    and "border_walls height width maze" and "cell_at maze (1, 1) = Open"
  shows "gen_inv height width (gen_init k maze)"
  using assms by (simp add: gen_inv_def gen_init_def interior_def)

lemma generate_maze_valid:
  assumes "3 \<le> height" and "3 \<le> width" and "grid_dims height width maze"
    and "border_walls height width maze" and "cell_at maze (1, 1) = Open"
  shows "\<exists>m. generate_maze rs k maze width height = Some (Some m) \<and>
           grid_dims height width m \<and> border_walls height width m \<and> cell_at m (1, 1) = Open"
proof -
  let ?P = "\<lambda>s. \<exists>g. s = Some g \<and> gen_inv height width g"
  obtain t where t: "while_option gen_continue (gen_body rs width height) (Some (gen_init k maze)) = Some t"
    using gen_loop_terminates [of rs width height k maze] by blast
  have "?P t"
  proof (rule while_option_rule [OF _ t])
    show "?P (Some (gen_init k maze))"
      using gen_init_inv [OF assms] by blast
  next
    fix s
    assume "?P s" and "gen_continue s"
    then obtain g where "s = Some g" "gen_inv height width g" "gstack g \<noteq> []"
      by (auto simp: gen_continue_def)
    then show "?P (gen_body rs width height s)"
      using gen_iteration_inv [of height width g rs] by (auto simp: gen_body_def)
  qed
  then show ?thesis
    using t by (auto simp: generate_maze_def gen_inv_def)
qed

lemma initialize_maze_Some:
  assumes "2 \<le> width" and "2 \<le> height"
  shows "initialize_maze width height =
           Some ((replicate (nat height) (replicate (nat width) Wall))
                   [1 := (replicate (nat width) Wall)[1 := Open]])"
  using assms by (simp add: initialize_maze_def grid_set_def py_index_simps)

text \<open>
  C29. \<open>initialize_maze(width, height)\<close> raises \<open>IndexError\<close> exactly when the grid
  has fewer than two rows or fewer than two columns (its write \<open>maze[1][1] = " "\<close>).
\<close>

lemma initialize_maze_None: "initialize_maze width height = None \<longleftrightarrow> width < 2 \<or> height < 2"
proof (cases "2 \<le> width \<and> 2 \<le> height")
  case True
  then show ?thesis
    using initialize_maze_Some [of width height] by auto
next
  case False
  then have "height < 2 \<or> width < 2" by auto
  then have "initialize_maze width height = None"
    by (auto simp: initialize_maze_def grid_set_def py_nth_def py_update_def py_index_def)
  with False show ?thesis by auto
qed

theorem initialize_maze_None_witness:
  "initialize_maze 1 5 = None \<and> initialize_maze 5 5 \<noteq> None"
  using initialize_maze_None [of 1 5] initialize_maze_None [of 5 5] by simp

lemma initialize_maze_valid:
  assumes "3 \<le> width" and "3 \<le> height" and "initialize_maze width height = Some m"
  shows "grid_dims height width m \<and> border_walls height width m \<and> cell_at m (1, 1) = Open"
  using assms initialize_maze_Some [of width height]
  by (auto simp: grid_dims_def border_walls_def interior_def cell_at_def nth_list_update
           list_all_length split: if_splits)

text \<open>
  C6. Generation as the program runs it (lines 128-129): for \<open>width, height \<ge> 3\<close>,
  \<open>initialize_maze\<close> and then \<open>generate_maze\<close> return without raising
  \<open>IndexError\<close>, for every random stream; the maze has \<open>height\<close> rows of
  \<open>width\<close> cells, every cell outside the interior is a wall, and the start cell (1,1)
  is open.
\<close>

theorem initialize_generate_valid:
  assumes "3 \<le> width" and "3 \<le> height"
  shows "\<exists>m0 m. initialize_maze width height = Some m0 \<and>
           generate_maze rs k m0 width height = Some (Some m) \<and>
           grid_dims height width m \<and> border_walls height width m \<and> cell_at m (1, 1) = Open"
proof -
  obtain m0 where m0: "initialize_maze width height = Some m0"
    using assms initialize_maze_Some by fastforce
  have "grid_dims height width m0 \<and> border_walls height width m0 \<and> cell_at m0 (1, 1) = Open"
    using initialize_maze_valid [OF assms m0] .
  then show ?thesis
    using m0 generate_maze_valid [OF assms(2,1), of m0 rs k] by blast
qed

theorem initialize_generate_valid_witness:
  "\<exists>m0 m. initialize_maze 5 5 = Some m0 \<and> generate_maze (\<lambda>_. 0) 0 m0 5 5 = Some (Some m) \<and>
     grid_dims 5 5 m \<and> border_walls 5 5 m \<and> cell_at m (1, 1) = Open"
  by (rule initialize_generate_valid) simp_all

subsection \<open>The scan as a search\<close>

lemma scan_directions_Cons_interior:
  "scan_directions m width height (x, y) ((dx, dy) # ds) =
     (if interior height width (x + dx, y + dy)
      then (case grid_get m (x + dx) (y + dy) of
              None \<Rightarrow> None
            | Some c \<Rightarrow> if c = Wall then Some (Some (dx, dy)) else scan_directions m width height (x, y) ds)
      else scan_directions m width height (x, y) ds)"
  by (simp add: interior_def Let_def)

text \<open>
  C9. The \<open>for ... break / else\<close> scan of lines 44-52 is the search the
  specification describes: on a grid of the given shape it raises nothing and picks the
  first direction, in the shuffled order, whose target is in range and still a wall, or
  none.
\<close>

theorem scan_directions_find:
  assumes "grid_dims height width m"
  shows "scan_directions m width height p ds = Some (find (scan_candidate m height width p) ds)"
proof (induction ds)
  case Nil
  then show ?case by (cases p) simp
next
  case (Cons d ds)
  obtain x y where p: "p = (x, y)" by fastforce
  obtain dx dy where d: "d = (dx, dy)" by fastforce
  show ?case
  proof (cases "interior height width (x + dx, y + dy)")
    case True
    have "grid_get m (x + dx) (y + dy) = Some (cell_at m (x + dx, y + dy))"
      using grid_get_in [OF assms interior_in_grid [OF True]] by simp
    then show ?thesis
      using Cons True unfolding p d scan_directions_Cons_interior by (simp add: scan_candidate_def)
  next
    case False
    then show ?thesis
      using Cons unfolding p d scan_directions_Cons_interior by (simp add: scan_candidate_def)
  qed
qed

theorem scan_directions_find_witness:
  "scan_directions [[Wall, Wall, Wall, Wall, Wall], [Wall, Open, Wall, Wall, Wall],
       [Wall, Wall, Wall, Wall, Wall], [Wall, Wall, Wall, Wall, Wall], [Wall, Wall, Wall, Wall, Wall]] 5 5 (1, 1) directions0 =
     Some (find (scan_candidate [[Wall, Wall, Wall, Wall, Wall], [Wall, Open, Wall, Wall, Wall],
       [Wall, Wall, Wall, Wall, Wall], [Wall, Wall, Wall, Wall, Wall], [Wall, Wall, Wall, Wall, Wall]] 5 5 (1, 1))
             directions0) \<and>
   find (scan_candidate [[Wall, Wall, Wall, Wall, Wall], [Wall, Open, Wall, Wall, Wall],
       [Wall, Wall, Wall, Wall, Wall], [Wall, Wall, Wall, Wall, Wall], [Wall, Wall, Wall, Wall, Wall]] 5 5 (1, 1))
     directions0 = Some (2, 0)"
proof -
  have "grid_dims 5 5 [[Wall, Wall, Wall, Wall, Wall], [Wall, Open, Wall, Wall, Wall],
       [Wall, Wall, Wall, Wall, Wall], [Wall, Wall, Wall, Wall, Wall], [Wall, Wall, Wall, Wall, Wall]]"
    by (simp add: grid_dims_def)
  then show ?thesis
    using scan_directions_find [of 5 5 _ "(1, 1)" directions0]
    by (simp add: directions0_def scan_candidate_def interior_def cell_at_def)
qed

subsection \<open>The shuffle of each iteration\<close>

lemma gen_iteration_gdirs:
  assumes "gen_iteration rs width height g = Some g'"
  shows "gdirs g' = fst (random_shuffle rs (grng g) (gdirs g))"
proof -
  obtain x y where xy: "last (gstack g) = (x, y)"
    by fastforce
  obtain ds k where dk: "random_shuffle rs (grng g) (gdirs g) = (ds, k)"
    by fastforce
  show ?thesis
    using assms gen_iteration_split [OF xy dk, of width height] dk
    by (auto split: option.splits Option.bind_splits)
qed

text \<open>
  C10. Every iteration of the search re-shuffles its directions (line 43), and the orders
  it can scan them in are exactly the permutations of the previous order: over all states
  of the random generator, an iteration from a state of the loop (a non-empty stack) never
  fails and leaves \<open>directions\<close> in every order of its four steps, and only in those.
\<close>

theorem gen_iteration_directions:
  assumes gi: "gen_inv height width g" and ne: "gstack g \<noteq> []"
  shows "{gdirs g' | rs g'. gen_iteration rs width height g = Some g'} = {ds. mset ds = mset (gdirs g)}"
proof (intro equalityI subsetI)
  fix ds
  assume "ds \<in> {gdirs g' | rs g'. gen_iteration rs width height g = Some g'}"
  then obtain rs g' where "gen_iteration rs width height g = Some g'" and "ds = gdirs g'"
    by blast
  then show "ds \<in> {ds. mset ds = mset (gdirs g)}"
    using gen_iteration_gdirs random_shuffle_mset by simp
next
  fix ds
  assume "ds \<in> {ds. mset ds = mset (gdirs g)}"
  then have "ds \<in> {fst (random_shuffle rs (grng g) (gdirs g)) | rs. True}"
    using random_shuffle_outcomes [of "grng g" "gdirs g"] by simp
  then obtain rs where rs: "fst (random_shuffle rs (grng g) (gdirs g)) = ds"
    by blast
  obtain g' where it: "gen_iteration rs width height g = Some g'"
    using gen_iteration_inv [OF gi ne] by blast
  then have "gdirs g' = ds"
    using gen_iteration_gdirs [OF it] rs by simp
  then show "ds \<in> {gdirs g' | rs g'. gen_iteration rs width height g = Some g'}"
    using it by blast
qed

theorem gen_iteration_directions_witness:
  "\<exists>m0. initialize_maze 5 5 = Some m0 \<and>
     {gdirs g' | rs g'. gen_iteration rs 5 5 (gen_init 0 m0) = Some g'} = {ds. mset ds = mset directions0}"
proof -
  obtain m0 where m0: "initialize_maze 5 5 = Some m0"
    using initialize_maze_Some [of 5 5] by simp
  have "grid_dims 5 5 m0 \<and> border_walls 5 5 m0 \<and> cell_at m0 (1, 1) = Open"
    using initialize_maze_valid [OF _ _ m0] by simp
  then have "gen_inv 5 5 (gen_init 0 m0)"
    using gen_init_inv [of 5 5 m0 0] by simp
  then show ?thesis
    using gen_iteration_directions [of 5 5 "gen_init 0 m0"] m0 by (simp add: gen_init_def)
qed

end
