(* ===== verification/Movement.thy ===== *)
theory Movement
  imports Maze_Prelude
begin

text \<open>
  The movement controller of \<open>src/maze_game.py\<close>: the body of the main loop that runs
  while the game is being played (lines 158-196). It reads the four arrow keys held in
  this frame, picks a direction (lines 164-176), moves the player one cell when the
  delay since the last move has passed and shortens the delay (lines 179-192), and
  checks for the exit (lines 195-196). The program keeps its state in module globals;
  here they are the fields of the record \<open>game\<close>, and every operation returns the
  record updated. Reading \<open>maze[r][c]\<close> may raise \<open>IndexError\<close> (the result
  \<open>None\<close>).
\<close>

subsection \<open>State and parameters\<close>

datatype direction = UP | DOWN | LEFT | RIGHT

text \<open>The state of the arrow keys from \<open>pygame.key.get_pressed()\<close>.\<close>

record keys =
  key_up :: bool
  key_down :: bool
  key_left :: bool
  key_right :: bool

record game =
  maze :: maze
  player_pos :: pos
  exit_pos :: pos
  move_delay :: int
  last_move_time :: int
  movement_direction :: "direction option"
  game_won :: bool
  display_start_message :: bool

definition initial_move_delay :: int where "initial_move_delay = 200"
definition min_move_delay :: int where "min_move_delay = 50"
definition acceleration_rate :: int where "acceleration_rate = 10"

subsection \<open>Operations\<close>

fun key_held :: "keys \<Rightarrow> direction \<Rightarrow> bool" where
  "key_held ks UP = key_up ks"
| "key_held ks DOWN = key_down ks"
| "key_held ks LEFT = key_left ks"
| "key_held ks RIGHT = key_right ks"

text \<open>The cell one step away in a direction: the cell read at lines 164-170 and the
  position the player moves to at lines 181-188.\<close>

fun move_player :: "direction \<Rightarrow> pos \<Rightarrow> pos" where
  "move_player UP (r, c) = (r - 1, c)"
| "move_player DOWN (r, c) = (r + 1, c)"
| "move_player LEFT (r, c) = (r, c - 1)"
| "move_player RIGHT (r, c) = (r, c + 1)"

text \<open>
  The \<open>if/elif\<close> chain of lines 164-176 over the directions in the order it tests
  them: the first direction whose key is held and whose cell is \<open>" "\<close> is chosen;
  \<open>Some None\<close> is the final \<open>else\<close>. The cell is read only when the key is held
  (Python's \<open>and\<close> short-circuits).
\<close>

fun select_direction :: "maze \<Rightarrow> pos \<Rightarrow> keys \<Rightarrow> direction list \<Rightarrow> direction option option" where
  "select_direction m p ks [] = Some None"
| "select_direction m p ks (d # ds) =
     (if key_held ks d
      then (case grid_get m (fst (move_player d p)) (snd (move_player d p)) of
              None \<Rightarrow> None
            | Some c \<Rightarrow> if c = Open then Some (Some d) else select_direction m p ks ds)
      else select_direction m p ks ds)"

definition direction_priority :: "direction list" where
  "direction_priority = [UP, DOWN, LEFT, RIGHT]"

text \<open>Lines 164-176: set \<open>movement_direction\<close>, and reset the delay in the \<open>else\<close>.\<close>

definition choose_direction :: "keys \<Rightarrow> game \<Rightarrow> game option" where
  "choose_direction ks g =
     (case select_direction (maze g) (player_pos g) ks direction_priority of
        None \<Rightarrow> None
      | Some (Some d) \<Rightarrow> Some (g\<lparr>movement_direction := Some d\<rparr>)
      | Some None \<Rightarrow> Some (g\<lparr>movement_direction := None, move_delay := initial_move_delay\<rparr>))"

text \<open>Lines 179-192: move when a direction is set and more than \<open>move_delay\<close>
  milliseconds have passed since the last move.\<close>

definition apply_move :: "int \<Rightarrow> game \<Rightarrow> game" where
  "apply_move current_time g =
     (case movement_direction g of
        None \<Rightarrow> g
      | Some d \<Rightarrow>
          if current_time - last_move_time g > move_delay g
          then g\<lparr>player_pos := move_player d (player_pos g),
                 last_move_time := current_time,
                 move_delay := max min_move_delay (move_delay g - acceleration_rate)\<rparr>
          else g)"

text \<open>Lines 195-196.\<close>

definition check_exit :: "game \<Rightarrow> game" where
  "check_exit g = (if player_pos g = exit_pos g then g\<lparr>game_won := True\<rparr> else g)"

text \<open>The whole update of one frame of play (lines 159-196).\<close>

definition update_movement :: "int \<Rightarrow> keys \<Rightarrow> game \<Rightarrow> game option" where
  "update_movement current_time ks g =
     map_option (\<lambda>g1. check_exit (apply_move current_time g1)) (choose_direction ks g)"

subsection \<open>The play invariant and inputs for the witnesses\<close>

text \<open>
  \<open>open_target m p ks d\<close>: the key of \<open>d\<close> is held and the cell one step away in
  direction \<open>d\<close> is open. \<open>play_inv\<close>: the maze keeps its shape and border, the
  player stands on an open cell of the grid, and the delay lies between
  \<open>min_move_delay\<close> and \<open>initial_move_delay\<close>.
\<close>

definition open_target :: "maze \<Rightarrow> pos \<Rightarrow> keys \<Rightarrow> direction \<Rightarrow> bool" where
  "open_target m p ks d \<longleftrightarrow> key_held ks d \<and> cell_at m (move_player d p) = Open"

definition play_inv :: "int \<Rightarrow> int \<Rightarrow> game \<Rightarrow> bool" where
  "play_inv h w g \<longleftrightarrow>
     grid_dims h w (maze g) \<and> border_walls h w (maze g) \<and>
     in_grid h w (player_pos g) \<and> cell_at (maze g) (player_pos g) = Open \<and>
     min_move_delay \<le> move_delay g \<and> move_delay g \<le> initial_move_delay"

text \<open>
  A 5 by 5 maze of the shape \<open>generate_maze\<close> carves (its four odd cells open and
  joined as a tree by three passages) and a game being played on it, with the player at
  the start cell.
\<close>

definition demo_maze :: maze where
  "demo_maze =
     [[Wall, Wall, Wall, Wall, Wall], [Wall, Open, Wall, Open, Wall],
      [Wall, Open, Wall, Open, Wall], [Wall, Open, Open, Open, Wall],
      [Wall, Wall, Wall, Wall, Wall]]"

definition demo_game :: game where
  "demo_game =
     \<lparr>maze = demo_maze, player_pos = (1, 1), exit_pos = (3, 3), move_delay = 120,
      last_move_time = 0, movement_direction = None, game_won = False,
      display_start_message = False\<rparr>"

text \<open>The arrow keys with only the key of \<open>d\<close> held, and with none held.\<close>

definition keys_only :: "direction \<Rightarrow> keys" where
  "keys_only d = \<lparr>key_up = (d = UP), key_down = (d = DOWN), key_left = (d = LEFT), key_right = (d = RIGHT)\<rparr>"

definition no_keys :: keys where
  "no_keys = \<lparr>key_up = False, key_down = False, key_left = False, key_right = False\<rparr>"

subsection \<open>Direction selection\<close>

text \<open>
  Where no read fails, the chain of lines 164-176 picks the first direction of the list
  whose key is held and whose neighbouring cell is open: the priority rule
  Up, Down, Left, Right of the specification.
\<close>

lemma move_player_interior:
  "interior h w p \<Longrightarrow> in_grid h w (move_player d p)"
  by (cases d; cases p) (simp_all add: interior_def in_grid_def)

lemma select_direction_find:
  assumes "grid_dims h w m" and "interior h w p"
  shows "select_direction m p ks ds = Some (find (open_target m p ks) ds)"
proof (induction ds)
  case Nil
  then show ?case by simp
next
  case (Cons d ds)
  have "grid_get m (fst (move_player d p)) (snd (move_player d p)) = Some (cell_at m (move_player d p))"
    using grid_get_in [OF assms(1) move_player_interior [OF assms(2)]] .
  with Cons show ?case
    by (simp add: open_target_def)
qed

lemma select_direction_Some_Some:
  "select_direction m p ks ds = Some (Some d) \<Longrightarrow>
     key_held ks d \<and> grid_get m (fst (move_player d p)) (snd (move_player d p)) = Some Open"
  by (induction ds) (auto split: if_splits option.splits)

subsection \<open>The play invariant\<close>

lemma play_inv_interior: "play_inv h w g \<Longrightarrow> interior h w (player_pos g)"
  by (auto simp: play_inv_def intro: border_walls_cell_at)

lemma choose_direction_find:
  assumes "play_inv h w g"
  shows "choose_direction ks g =
           Some (case find (open_target (maze g) (player_pos g) ks) direction_priority of
                   Some d \<Rightarrow> g\<lparr>movement_direction := Some d\<rparr>
                 | None \<Rightarrow> g\<lparr>movement_direction := None, move_delay := initial_move_delay\<rparr>)"
  using select_direction_find [of h w "maze g" "player_pos g" ks direction_priority] assms
  by (auto simp: choose_direction_def play_inv_def play_inv_interior split: option.splits)

lemma find_open_target:
  "find (open_target m p ks) ds = Some d \<Longrightarrow> cell_at m (move_player d p) = Open \<and> key_held ks d"
  by (auto simp: find_Some_iff open_target_def)

lemma check_exit_fields:
  "maze (check_exit g) = maze g \<and> player_pos (check_exit g) = player_pos g \<and>
   exit_pos (check_exit g) = exit_pos g \<and> move_delay (check_exit g) = move_delay g \<and>
   last_move_time (check_exit g) = last_move_time g \<and>
   movement_direction (check_exit g) = movement_direction g \<and>
   display_start_message (check_exit g) = display_start_message g"
  by (simp add: check_exit_def)

lemma play_inv_check_exit: "play_inv h w (check_exit g) = play_inv h w g"
  by (simp add: play_inv_def check_exit_fields)

lemma update_movement_play_inv:
  assumes inv: "play_inv h w g"
  shows "\<exists>g'. update_movement t ks g = Some g' \<and> play_inv h w g'"
proof -
  have int: "interior h w (player_pos g)"
    using inv by (rule play_inv_interior)
  obtain g1 where c: "choose_direction ks g = Some g1"
    using choose_direction_find [OF inv] by blast
  have inv1: "play_inv h w g1"
    using c inv choose_direction_find [OF inv]
    by (auto simp: play_inv_def initial_move_delay_def min_move_delay_def split: option.splits)
  have dir: "movement_direction g1 = Some d \<Longrightarrow> cell_at (maze g1) (move_player d (player_pos g1)) = Open" for d
    using c choose_direction_find [OF inv]
    by (auto split: option.splits dest: find_open_target)
  have pos1: "player_pos g1 = player_pos g"
    using c choose_direction_find [OF inv] by (auto split: option.splits)
  have inv2: "play_inv h w (apply_move t g1)"
  proof (cases "movement_direction g1")
    case None
    then show ?thesis using inv1 by (simp add: apply_move_def)
  next
    case (Some d)
    have "in_grid h w (move_player d (player_pos g1))"
      using int pos1 by (simp add: move_player_interior)
    then show ?thesis
      using inv1 dir [OF Some] Some
      by (auto simp: apply_move_def play_inv_def min_move_delay_def acceleration_rate_def
                     initial_move_delay_def)
  qed
  then have "play_inv h w (check_exit (apply_move t g1))"
    by (simp add: play_inv_check_exit)
  then show ?thesis
    using c by (simp add: update_movement_def)
qed

subsection \<open>Behaviour of one frame of play\<close>

lemma update_movement_no_target:
  assumes "play_inv h w g" and "find (open_target (maze g) (player_pos g) ks) direction_priority = None"
  shows "update_movement t ks g =
           Some (check_exit (g\<lparr>movement_direction := None, move_delay := initial_move_delay\<rparr>))"
  using assms choose_direction_find [OF assms(1), of ks]
  by (simp add: update_movement_def apply_move_def)

lemma update_movement_target:
  assumes "play_inv h w g" and "find (open_target (maze g) (player_pos g) ks) direction_priority = Some d"
  shows "update_movement t ks g =
           Some (check_exit
             (if t - last_move_time g > move_delay g
              then g\<lparr>movement_direction := Some d, player_pos := move_player d (player_pos g),
                     last_move_time := t,
                     move_delay := max min_move_delay (move_delay g - acceleration_rate)\<rparr>
              else g\<lparr>movement_direction := Some d\<rparr>))"
  using assms choose_direction_find [OF assms(1), of ks]
  by (simp add: update_movement_def apply_move_def)

lemma update_movement_Some_cases:
  assumes "update_movement t ks g = Some g'"
  obtains (none) "select_direction (maze g) (player_pos g) ks direction_priority = Some None"
      and "g' = check_exit (g\<lparr>movement_direction := None, move_delay := initial_move_delay\<rparr>)"
    | (some) d where "select_direction (maze g) (player_pos g) ks direction_priority = Some (Some d)"
      and "g' = check_exit (apply_move t (g\<lparr>movement_direction := Some d\<rparr>))"
  using assms
  by (auto simp: update_movement_def choose_direction_def apply_move_def split: option.splits)

text \<open>
  C12. Direction priority: during a frame of play the direction recorded in
  \<open>movement_direction\<close> is the first of Up, Down, Left, Right whose key is held and
  whose neighbouring cell is open; when there is none, the delay is reset to
  \<open>initial_move_delay\<close>.
\<close>

theorem update_movement_priority:
  assumes "play_inv h w g" and "update_movement t ks g = Some g'"
  shows "movement_direction g' =
           (if open_target (maze g) (player_pos g) ks UP then Some UP
            else if open_target (maze g) (player_pos g) ks DOWN then Some DOWN
            else if open_target (maze g) (player_pos g) ks LEFT then Some LEFT
            else if open_target (maze g) (player_pos g) ks RIGHT then Some RIGHT
            else None) \<and>
         (movement_direction g' = None \<longrightarrow> move_delay g' = initial_move_delay)"
proof -
  let ?P = "open_target (maze g) (player_pos g) ks"
  have chain: "find ?P direction_priority =
      (if ?P UP then Some UP else if ?P DOWN then Some DOWN else if ?P LEFT then Some LEFT
       else if ?P RIGHT then Some RIGHT else None)"
    by (simp add: direction_priority_def)
  show ?thesis
  proof (cases "find ?P direction_priority")
    case None
    with update_movement_no_target [OF assms(1) None, of t] assms(2) show ?thesis
      unfolding chain [symmetric] by (auto simp: check_exit_fields)
  next
    case (Some d)
    with update_movement_target [OF assms(1) Some, of t] assms(2) show ?thesis
      unfolding chain [symmetric] by (auto simp: check_exit_fields)
  qed
qed

text \<open>
  C11. The player moves only onto a cell the code has read as \<open>" "\<close>: after a frame of
  play the player is where it was, or one step away in a direction whose key is held and
  whose cell reads as open. This needs no invariant: it is the guard of lines 164-170.
\<close>

theorem update_movement_moves_to_open:
  assumes "update_movement t ks g = Some g'"
  shows "player_pos g' = player_pos g \<or>
         (\<exists>d. key_held ks d \<and> player_pos g' = move_player d (player_pos g) \<and>
              grid_get (maze g) (fst (player_pos g')) (snd (player_pos g')) = Some Open)"
  using assms
proof (cases rule: update_movement_Some_cases)
  case none
  then show ?thesis by (simp add: check_exit_fields)
next
  case (some d)
  then show ?thesis
    using select_direction_Some_Some [OF some(1)]
    by (auto simp: apply_move_def check_exit_fields)
qed

lemma update_movement_maze:
  assumes "update_movement t ks g = Some g'"
  shows "maze g' = maze g \<and> exit_pos g' = exit_pos g \<and>
         display_start_message g' = display_start_message g"
  using assms
  by (cases rule: update_movement_Some_cases) (simp_all add: apply_move_def check_exit_fields)

lemma update_movement_won:
  assumes "update_movement t ks g = Some g'"
  shows "game_won g' \<longleftrightarrow> game_won g \<or> player_pos g' = exit_pos g'"
  using assms
  by (cases rule: update_movement_Some_cases) (auto simp: apply_move_def check_exit_def)

lemma move_player_moves: "move_player d p \<noteq> p"
  by (cases d; cases p) simp_all

lemma update_movement_move_time:
  assumes inv: "play_inv h w g" and u: "update_movement t ks g = Some g'"
  shows "(player_pos g' = player_pos g \<and> last_move_time g' = last_move_time g) \<or>
         (player_pos g' \<noteq> player_pos g \<and> last_move_time g + min_move_delay < last_move_time g')"
  using u
proof (cases rule: update_movement_Some_cases)
  case none
  then show ?thesis
    by (simp add: check_exit_fields)
next
  case (some d)
  have "min_move_delay \<le> move_delay g"
    using inv by (simp add: play_inv_def)
  then show ?thesis
    using some(2) move_player_moves [of d] by (auto simp: apply_move_def check_exit_fields)
qed

text \<open>
  C21. Delay reset: when no held key points at an open cell (in particular when no key is
  held at all), the frame resets \<open>move_delay\<close> to \<open>initial_move_delay\<close> and the player
  does not move.
\<close>

theorem update_movement_reset:
  assumes "play_inv h w g" and "\<forall>d. \<not> open_target (maze g) (player_pos g) ks d"
    and "update_movement t ks g = Some g'"
  shows "move_delay g' = initial_move_delay \<and> player_pos g' = player_pos g"
proof -
  have "find (open_target (maze g) (player_pos g) ks) direction_priority = None"
    using assms(2) by (simp add: find_None_iff)
  from update_movement_no_target [OF assms(1) this, of t] assms(3)
  have "g' = check_exit (g\<lparr>movement_direction := None, move_delay := initial_move_delay\<rparr>)"
    by simp
  then show ?thesis
    by (simp add: check_exit_fields)
qed

text \<open>
  C20. Acceleration: when the chosen direction is \<open>d\<close> and more than \<open>move_delay\<close>
  milliseconds have passed since the last move, the player moves one cell in \<open>d\<close>, the
  time of the last move becomes now and the delay drops by \<open>acceleration_rate\<close>, but
  not below \<open>min_move_delay\<close>; otherwise nothing but the direction changes.
\<close>

theorem update_movement_accelerates:
  assumes "play_inv h w g"
    and "find (open_target (maze g) (player_pos g) ks) direction_priority = Some d"
    and "update_movement t ks g = Some g'"
  shows "(t - last_move_time g > move_delay g \<longrightarrow>
            player_pos g' = move_player d (player_pos g) \<and> last_move_time g' = t \<and>
            move_delay g' = max min_move_delay (move_delay g - acceleration_rate)) \<and>
         (\<not> t - last_move_time g > move_delay g \<longrightarrow>
            player_pos g' = player_pos g \<and> last_move_time g' = last_move_time g \<and>
            move_delay g' = move_delay g)"
proof -
  from update_movement_target [OF assms(1,2), of t] assms(3)
  have "g' = check_exit
             (if t - last_move_time g > move_delay g
              then g\<lparr>movement_direction := Some d, player_pos := move_player d (player_pos g),
                     last_move_time := t,
                     move_delay := max min_move_delay (move_delay g - acceleration_rate)\<rparr>
              else g\<lparr>movement_direction := Some d\<rparr>)"
    by simp
  then show ?thesis
    by (simp add: check_exit_fields)
qed

subsection \<open>Witnesses on a small maze\<close>

lemma demo_game_play_inv: "play_inv 5 5 demo_game"
  by (simp add: play_inv_def demo_game_def demo_maze_def grid_dims_def border_walls_def
      in_grid_def cell_at_def interior_def min_move_delay_def initial_move_delay_def All_less_Suc)

lemmas demo_eval = update_movement_def choose_direction_def direction_priority_def demo_game_def
  demo_maze_def grid_get_def py_index_simps apply_move_def check_exit_def min_move_delay_def
  acceleration_rate_def initial_move_delay_def

lemma demo_move_down:
  "update_movement 300 (keys_only DOWN) demo_game =
     Some (demo_game\<lparr>player_pos := (2, 1), last_move_time := 300, move_delay := 110,
                     movement_direction := Some DOWN\<rparr>)"
  by (simp add: demo_eval keys_only_def)

lemma demo_reach_exit:
  "update_movement 300 (keys_only RIGHT) (demo_game\<lparr>player_pos := (3, 2)\<rparr>) =
     Some (demo_game\<lparr>player_pos := (3, 3), last_move_time := 300, move_delay := 110,
                     movement_direction := Some RIGHT, game_won := True\<rparr>)"
  by (simp add: demo_eval keys_only_def)

theorem update_movement_moves_to_open_witness:
  "\<exists>g'. update_movement 300 (keys_only DOWN) demo_game = Some g' \<and>
     (player_pos g' = player_pos demo_game \<or>
      (\<exists>d. key_held (keys_only DOWN) d \<and> player_pos g' = move_player d (player_pos demo_game) \<and>
           grid_get (maze demo_game) (fst (player_pos g')) (snd (player_pos g')) = Some Open))"
  using demo_move_down update_movement_moves_to_open [OF demo_move_down] by blast

theorem update_movement_reset_witness:
  "\<exists>g'. update_movement 300 (keys_only UP) demo_game = Some g' \<and>
     move_delay g' = initial_move_delay \<and> player_pos g' = player_pos demo_game"
proof -
  obtain g' where g': "update_movement 300 (keys_only UP) demo_game = Some g'"
    using update_movement_play_inv [OF demo_game_play_inv] by blast
  have "\<not> open_target (maze demo_game) (player_pos demo_game) (keys_only UP) d" for d
    by (cases d) (simp_all add: open_target_def keys_only_def demo_game_def demo_maze_def cell_at_def)
  with g' show ?thesis
    using update_movement_reset [OF demo_game_play_inv] by blast
qed

theorem update_movement_accelerates_witness:
  "\<exists>g'. update_movement 300 (keys_only DOWN) demo_game = Some g' \<and>
     player_pos g' = move_player DOWN (player_pos demo_game) \<and> last_move_time g' = 300 \<and>
     move_delay g' = max min_move_delay (move_delay demo_game - acceleration_rate)"
proof -
  have f: "find (open_target (maze demo_game) (player_pos demo_game) (keys_only DOWN))
             direction_priority = Some DOWN"
    by (simp add: demo_eval keys_only_def open_target_def cell_at_def)
  have e: "300 - last_move_time demo_game > move_delay demo_game"
    by (simp add: demo_game_def)
  show ?thesis
    using demo_move_down update_movement_accelerates [OF demo_game_play_inv f demo_move_down] e
    by blast
qed

theorem update_movement_priority_witness:
  "\<exists>g'. update_movement 300 \<lparr>key_up = True, key_down = True, key_left = False, key_right = False\<rparr>
           (demo_game\<lparr>player_pos := (2, 1)\<rparr>) = Some g' \<and> movement_direction g' = Some UP"
proof -
  let ?ks = "\<lparr>key_up = True, key_down = True, key_left = False, key_right = False\<rparr>"
  have inv: "play_inv 5 5 (demo_game\<lparr>player_pos := (2, 1)\<rparr>)"
    using demo_game_play_inv by (simp add: play_inv_def in_grid_def cell_at_def demo_game_def demo_maze_def)
  obtain g' where g': "update_movement 300 ?ks (demo_game\<lparr>player_pos := (2, 1)\<rparr>) = Some g'"
    using update_movement_play_inv [OF inv] by blast
  show ?thesis
    using g' update_movement_priority [OF inv g']
    by (simp add: open_target_def cell_at_def demo_game_def demo_maze_def)
qed

end
