(* ===== verification/Game_Loop.thy ===== *)
theory Game_Loop
  imports Maze_Generator Movement
begin

text \<open>
  The top level of \<open>src/maze_game.py\<close>: the setup of the module's globals (lines
  127-148) and one iteration of the main loop \<open>while True:\<close> (lines 150-223). The
  loop polls the event queue (a \<open>QUIT\<close> event ends the program at once; the first key
  press hides the start message), runs the movement update of \<open>Movement\<close> while the
  game is being played, and ends the program, after a pause of 2000 ms, in the frame
  in which the game is won. Drawing (\<open>draw_maze\<close>, \<open>draw_player\<close>, \<open>draw_exit\<close>,
  the messages and \<open>pygame.display.flip\<close>) produces no state the loop reads and is
  not modelled. A frame's input is what pygame hands the loop in that frame: the queued
  events, the clock reading and the arrow keys held.
\<close>

subsection \<open>Definitions\<close>

definition WIDTH :: int where "WIDTH = 21"
definition HEIGHT :: int where "HEIGHT = 21"

datatype event = QUIT | KEYDOWN | OTHER_EVENT

record frame_input =
  events :: "event list"
  ticks :: int
  pressed :: keys

datatype event_outcome = Quit_requested | Events_done bool

text \<open>The \<open>for event in pygame.event.get():\<close> loop (lines 151-156), over the value of
  \<open>display_start_message\<close>.\<close>

fun process_events :: "bool \<Rightarrow> event list \<Rightarrow> event_outcome" where
  "process_events dsm [] = Events_done dsm"
| "process_events dsm (e # es) =
     (if e = QUIT then Quit_requested
      else process_events (if dsm \<and> e = KEYDOWN then False else dsm) es)"

text \<open>How an iteration of the main loop ends: the loop goes on, the program exits on a
  \<open>QUIT\<close> event (lines 152-154), or it exits after showing the win message (lines
  216-221).\<close>

datatype frame_result = Running game | Quit_exit | Win_exit game

definition game_frame :: "game \<Rightarrow> frame_input \<Rightarrow> frame_result option" where
  "game_frame g inp =
     (case process_events (display_start_message g) (events inp) of
        Quit_requested \<Rightarrow> Some Quit_exit
      | Events_done dsm \<Rightarrow>
          (let g1 = g\<lparr>display_start_message := dsm\<rparr>
           in case (if \<not> game_won g1 \<and> \<not> display_start_message g1
                    then update_movement (ticks inp) (pressed inp) g1 else Some g1) of
                None \<Rightarrow> None
              | Some g2 \<Rightarrow>
                  Some (if display_start_message g2 then Running g2
                        else if game_won g2 then Win_exit g2 else Running g2)))"

fun run_frames :: "game \<Rightarrow> frame_input list \<Rightarrow> frame_result option" where
  "run_frames g [] = Some (Running g)"
| "run_frames g (i # is) =
     (case game_frame g i of
        None \<Rightarrow> None
      | Some (Running g') \<Rightarrow> run_frames g' is
      | Some r \<Rightarrow> Some r)"

text \<open>
  Lines 128-148 for a grid of \<open>width \<times> height\<close> cells, a random stream \<open>rs\<close> read from
  position \<open>k\<close>, and the clock reading \<open>t0\<close> of line 143. The outer \<open>None\<close> would be
  a generation that never ends, the inner \<open>None\<close> an \<open>IndexError\<close>.
\<close>

definition setup_game :: "int \<Rightarrow> int \<Rightarrow> rng \<Rightarrow> nat \<Rightarrow> int \<Rightarrow> game option option" where
  "setup_game width height rs k t0 =
     (case initialize_maze width height of
        None \<Rightarrow> Some None
      | Some m0 \<Rightarrow>
          (case generate_maze rs k m0 width height of
             None \<Rightarrow> None
           | Some None \<Rightarrow> Some None
           | Some (Some m1) \<Rightarrow>
               Some (map_option
                 (\<lambda>m2. \<lparr>maze = m2, player_pos = (1, 1), exit_pos = (height - 2, width - 2),
                        move_delay = initial_move_delay, last_move_time = t0,
                        movement_direction = None, game_won = False,
                        display_start_message = True\<rparr>)
                 (grid_set m1 (height - 2) (width - 2) Open))))"

subsection \<open>The invariant of the running program\<close>

text \<open>
  Between two iterations of the main loop the game has not been won (a won game exits in
  the frame that wins it), the exit is the cell fixed at setup, and the play invariant of
  \<open>Movement\<close> holds.
\<close>

definition game_inv :: "int \<Rightarrow> int \<Rightarrow> game \<Rightarrow> bool" where
  "game_inv h w g \<longleftrightarrow>
     play_inv h w g \<and> \<not> game_won g \<and> exit_pos g = (h - 2, w - 2) \<and>
     (\<not> display_start_message g \<longrightarrow> player_pos g \<noteq> exit_pos g)"

text \<open>\<open>frame_ok h w g r\<close>: the result \<open>r\<close> of a frame from \<open>g\<close> keeps the invariant
  and the maze; a win has the player on the unchanged exit.\<close>

definition frame_ok :: "int \<Rightarrow> int \<Rightarrow> game \<Rightarrow> frame_result \<Rightarrow> bool" where
  "frame_ok h w g r \<longleftrightarrow>
     (case r of
        Running g' \<Rightarrow> game_inv h w g' \<and> maze g' = maze g
      | Win_exit g' \<Rightarrow> play_inv h w g' \<and> maze g' = maze g \<and> exit_pos g' = exit_pos g \<and>
                     player_pos g' = exit_pos g'
      | Quit_exit \<Rightarrow> True)"

text \<open>
  A run of frames in which a direction is held throughout: in every frame the program
  is being played, no \<open>QUIT\<close> is queued, and some held key points at an open cell.
\<close>

fun held_run :: "game \<Rightarrow> frame_input list \<Rightarrow> bool" where
  "held_run g [] = True"
| "held_run g (i # is) =
     (QUIT \<notin> set (events i) \<and> \<not> display_start_message g \<and>
      find (open_target (maze g) (player_pos g) (pressed i)) direction_priority \<noteq> None \<and>
      (case game_frame g i of Some (Running g') \<Rightarrow> held_run g' is | _ \<Rightarrow> True))"

text \<open>A frame with no queued event, the clock at \<open>t\<close> and the keys \<open>ks\<close>.\<close>

definition frame_at :: "int \<Rightarrow> keys \<Rightarrow> frame_input" where
  "frame_at t ks = \<lparr>events = [], ticks = t, pressed = ks\<rparr>"

text \<open>\<open>move_count g is\<close>: the number of frames of a run in which the player changes
  cell (the frames up to the end of the run or the program's exit).\<close>

definition moved :: "game \<Rightarrow> game \<Rightarrow> nat" where
  "moved g g' = (if player_pos g' = player_pos g then 0 else 1)"

fun move_count :: "game \<Rightarrow> frame_input list \<Rightarrow> nat" where
  "move_count g [] = 0"
| "move_count g (i # is) =
     (case game_frame g i of
        Some (Running g') \<Rightarrow> moved g g' + move_count g' is
      | Some (Win_exit g') \<Rightarrow> moved g g'
      | _ \<Rightarrow> 0)"

subsection \<open>The phases of the specification\<close>

text \<open>
  The specification's \<open>GamePhase\<close>: \<open>AwaitingStart\<close> until the first input,
  \<open>Playing\<close>, and \<open>Won\<close>, which is terminal. The code keeps the phase in the two
  flags \<open>display_start_message\<close> and \<open>game_won\<close> (lines 147-148);
  \<open>game_phase\<close> reads it from them. \<open>phase_step\<close> is the abstract machine of the
  specification: \<open>AwaitingStart \<rightarrow> Playing \<rightarrow> Won\<close>.
\<close>

datatype phase = AwaitingStart | Playing | Won

definition game_phase :: "game \<Rightarrow> phase" where
  "game_phase g =
     (if game_won g then Won else if display_start_message g then AwaitingStart else Playing)"

inductive phase_step :: "phase \<Rightarrow> phase \<Rightarrow> bool" where
  start: "phase_step AwaitingStart Playing"
| win: "phase_step Playing Won"

subsection \<open>The event loop\<close>

lemma process_events_eq:
  "process_events dsm es =
     (if QUIT \<in> set es then Quit_requested else Events_done (dsm \<and> KEYDOWN \<notin> set es))"
  by (induction dsm es rule: process_events.induct) auto

subsection \<open>Preservation of the invariant\<close>

lemma game_frame_inv:
  assumes inv: "game_inv h w g"
  shows "\<exists>r. game_frame g i = Some r \<and> frame_ok h w g r"
proof (cases "QUIT \<in> set (events i)")
  case True
  then show ?thesis
    by (simp add: game_frame_def process_events_eq frame_ok_def)
next
  case False
  define g1 where "g1 = g\<lparr>display_start_message := display_start_message g \<and> KEYDOWN \<notin> set (events i)\<rparr>"
  have inv1: "play_inv h w g1 \<and> \<not> game_won g1 \<and> exit_pos g1 = (h - 2, w - 2)"
    using inv by (simp add: g1_def game_inv_def play_inv_def)
  have fr: "game_frame g i =
              (case (if \<not> game_won g1 \<and> \<not> display_start_message g1
                     then update_movement (ticks i) (pressed i) g1 else Some g1) of
                 None \<Rightarrow> None
               | Some g2 \<Rightarrow> Some (if display_start_message g2 then Running g2
                                 else if game_won g2 then Win_exit g2 else Running g2))"
    using False by (simp add: game_frame_def process_events_eq g1_def Let_def)
  show ?thesis
  proof (cases "display_start_message g1")
    case True
    then show ?thesis
      using fr inv1 by (simp add: frame_ok_def game_inv_def g1_def)
  next
    case ds: False
    obtain g2 where u: "update_movement (ticks i) (pressed i) g1 = Some g2" and p2: "play_inv h w g2"
      using update_movement_play_inv [of h w g1] inv1 by (auto simp: game_inv_def)
    have m2: "maze g2 = maze g1 \<and> exit_pos g2 = exit_pos g1 \<and>
              display_start_message g2 = display_start_message g1"
      using u by (rule update_movement_maze)
    have w2: "game_won g2 \<longleftrightarrow> player_pos g2 = exit_pos g2"
      using update_movement_won [OF u] inv1 by (simp add: game_inv_def)
    have mg: "maze g1 = maze g \<and> exit_pos g1 = exit_pos g"
      by (simp add: g1_def)
    have res: "game_frame g i = Some (if game_won g2 then Win_exit g2 else Running g2)"
      using fr ds u m2 inv1 by simp
    show ?thesis
    proof (cases "game_won g2")
      case True
      then show ?thesis
        using res p2 m2 mg w2 by (simp add: frame_ok_def)
    next
      case False
      then have "game_inv h w g2"
        using p2 m2 w2 inv1 by (simp add: game_inv_def)
      then show ?thesis
        using res False m2 mg by (simp add: frame_ok_def)
    qed
  qed
qed

lemma frame_ok_trans:
  assumes "frame_ok h w g' r" and "maze g' = maze g" and "exit_pos g' = exit_pos g"
  shows "frame_ok h w g r"
  using assms by (cases r) (simp_all add: frame_ok_def)

lemma run_frames_inv:
  assumes "game_inv h w g"
  shows "\<exists>r. run_frames g is = Some r \<and> frame_ok h w g r"
  using assms
proof (induction "is" arbitrary: g)
  case Nil
  then show ?case by (simp add: frame_ok_def)
next
  case (Cons i "is")
  obtain r where r: "game_frame g i = Some r" and ok: "frame_ok h w g r"
    using game_frame_inv [OF Cons.prems] by blast
  show ?case
  proof (cases r)
    case (Running g')
    then have inv': "game_inv h w g'" and "maze g' = maze g"
      using ok by (simp_all add: frame_ok_def)
    moreover have "exit_pos g' = exit_pos g"
      using inv' Cons.prems by (simp add: game_inv_def)
    moreover obtain r' where "run_frames g' is = Some r'" and "frame_ok h w g' r'"
      using Cons.IH [OF inv'] by blast
    ultimately show ?thesis
      using r Running frame_ok_trans by auto
  next
    case Quit_exit
    then show ?thesis using r ok by simp
  next
    case (Win_exit g')
    then show ?thesis using r ok by simp
  qed
qed

lemma game_frame_play:
  assumes "QUIT \<notin> set (events i)" and "\<not> (display_start_message g \<and> KEYDOWN \<notin> set (events i))"
    and "\<not> game_won g"
  shows "game_frame g i =
           map_option (\<lambda>g2. if game_won g2 then Win_exit g2 else Running g2)
             (update_movement (ticks i) (pressed i) (g\<lparr>display_start_message := False\<rparr>))"
  using assms
  by (cases "display_start_message g")
     (auto simp: game_frame_def process_events_eq Let_def split: option.splits
           dest: update_movement_maze)

lemma setup_game_inv:
  assumes "3 \<le> width" and "3 \<le> height"
  shows "\<exists>g. setup_game width height rs k t0 = Some (Some g) \<and> game_inv height width g \<and>
             display_start_message g \<and> player_pos g = (1, 1) \<and>
             cell_at (maze g) (exit_pos g) = Open"
proof -
  obtain m0 where m0: "initialize_maze width height = Some m0"
    using assms initialize_maze_Some by fastforce
  have v0: "grid_dims height width m0 \<and> border_walls height width m0 \<and> cell_at m0 (1, 1) = Open"
    using initialize_maze_valid [OF assms m0] .
  obtain m where gm: "generate_maze rs k m0 width height = Some (Some m)"
    and dims: "grid_dims height width m" and bw: "border_walls height width m"
    and o11: "cell_at m (1, 1) = Open"
    using generate_maze_valid [OF assms(2,1), of m0 rs k] v0 by blast
  let ?e = "(height - 2, width - 2)"
  have ei: "interior height width ?e"
    using assms by (simp add: interior_def)
  define m2 where "m2 = m[nat (fst ?e) := (m ! nat (fst ?e))[nat (snd ?e) := Open]]"
  have s2: "grid_set m (height - 2) (width - 2) Open = Some m2"
    using grid_set_in [OF dims interior_in_grid [OF ei]] by (simp add: m2_def)
  have dims2: "grid_dims height width m2" and bw2: "border_walls height width m2"
    using grid_dims_update [OF dims interior_in_grid [OF ei]]
      border_walls_open_interior [OF dims bw ei] by (simp_all add: m2_def)
  have g11: "in_grid height width (1, 1)"
    using assms by (simp add: in_grid_def)
  have o2: "cell_at m2 (1, 1) = Open" and e2: "cell_at m2 ?e = Open"
    using cell_at_update [OF dims interior_in_grid [OF ei] g11, of Open] o11
      cell_at_update [OF dims interior_in_grid [OF ei] interior_in_grid [OF ei], of Open]
    by (simp_all add: m2_def)
  show ?thesis
    using m0 gm s2 dims2 bw2 o2 e2 g11
    by (simp add: setup_game_def game_inv_def play_inv_def initial_move_delay_def
                  min_move_delay_def)
qed

text \<open>
  C24. A \<open>QUIT\<close> event in a frame's queue ends the program in that frame, whatever the
  state and whatever else is queued.
\<close>

theorem game_frame_quit:
  assumes "QUIT \<in> set (events i)"
  shows "game_frame g i = Some Quit_exit"
  using assms by (simp add: game_frame_def process_events_eq)

text \<open>
  C25. While the start message is shown and no key is pressed, a frame changes nothing:
  no movement, whatever keys are reported held and whatever the clock says.
\<close>

theorem game_frame_start_screen:
  assumes "display_start_message g" and "QUIT \<notin> set (events i)" and "KEYDOWN \<notin> set (events i)"
  shows "game_frame g i = Some (Running g)"
  using assms by (simp add: game_frame_def process_events_eq Let_def)

text \<open>
  C26. The first key press (a \<open>KEYDOWN\<close> event while the start message is shown) ends
  the start screen, and the movement update already runs in that same frame: the frame's
  result is the update of the state with the message hidden, ending the program if that
  update wins the game.
\<close>

theorem game_frame_first_key:
  assumes "display_start_message g" and "\<not> game_won g"
    and "KEYDOWN \<in> set (events i)" and "QUIT \<notin> set (events i)"
  shows "game_frame g i =
           map_option (\<lambda>g2. if game_won g2 then Win_exit g2 else Running g2)
             (update_movement (ticks i) (pressed i) (g\<lparr>display_start_message := False\<rparr>))"
  using assms by (simp add: game_frame_play)

text \<open>
  C13. Win exactness at the level of the loop: the program ends with the win message
  exactly in a frame of play after which the player is on the exit; a frame of play after
  which the loop goes on leaves the player off the exit.
\<close>

theorem game_frame_win_exact:
  assumes "game_inv h w g" and "game_frame g i = Some r"
  shows "(\<forall>g'. r = Win_exit g' \<longrightarrow> player_pos g' = exit_pos g') \<and>
         (\<forall>g'. r = Running g' \<longrightarrow> \<not> display_start_message g' \<longrightarrow> player_pos g' \<noteq> exit_pos g')"
  using game_frame_inv [OF assms(1), of i] assms(2)
  by (auto simp: frame_ok_def game_inv_def)

lemma max_delay_step:
  "max min_move_delay (max min_move_delay (d - acceleration_rate) - acceleration_rate * int n) =
   max min_move_delay (d - acceleration_rate * int (Suc n))"
  by (simp add: min_move_delay_def acceleration_rate_def max_def algebra_simps)

lemma held_frame_delay:
  assumes inv: "game_inv h w g" and no_quit: "QUIT \<notin> set (events i)"
    and play: "\<not> display_start_message g"
    and f: "find (open_target (maze g) (player_pos g) (pressed i)) direction_priority = Some d"
    and fr: "game_frame g i = Some (Running g1)"
  shows "move_delay g1 = (if moved g g1 = 0 then move_delay g
                          else max min_move_delay (move_delay g - acceleration_rate))"
proof -
  have gg: "g\<lparr>display_start_message := False\<rparr> = g"
    using play by simp
  have pinv: "play_inv h w g" and nw: "\<not> game_won g"
    using inv by (simp_all add: game_inv_def)
  have "game_frame g i = map_option (\<lambda>g2. if game_won g2 then Win_exit g2 else Running g2)
                           (update_movement (ticks i) (pressed i) g)"
    using game_frame_play [OF no_quit _ nw] play gg by simp
  then have "update_movement (ticks i) (pressed i) g = Some g1"
    using fr by (cases "update_movement (ticks i) (pressed i) g") (auto split: if_splits)
  then show ?thesis
    using update_movement_target [OF pinv f, of "ticks i"] move_player_moves [of d "player_pos g"]
    by (auto simp: check_exit_fields moved_def)
qed

text \<open>
  C22. While a direction is held without a break, every move of the run lowers the delay
  by \<open>acceleration_rate\<close>, floored at \<open>min_move_delay\<close>, and no other frame changes
  it: the delay after the run is the delay before it lowered once per move made
  (\<open>move_count\<close>), so it never increases and reaches the floor after 15 moves from
  \<open>initial_move_delay\<close>.
\<close>

theorem run_frames_held_delay:
  assumes "game_inv h w g" and "held_run g is" and "run_frames g is = Some (Running g')"
  shows "move_delay g' =
           max min_move_delay (move_delay g - acceleration_rate * int (move_count g is))"
  using assms
proof (induction "is" arbitrary: g)
  case Nil
  then have "move_delay g' = move_delay g" and "min_move_delay \<le> move_delay g"
    by (auto simp: game_inv_def play_inv_def)
  then show ?case by simp
next
  case (Cons i "is")
  obtain d where f: "find (open_target (maze g) (player_pos g) (pressed i)) direction_priority = Some d"
    using Cons.prems(2) by auto
  obtain r where r: "game_frame g i = Some r" and ok: "frame_ok h w g r"
    using game_frame_inv [OF Cons.prems(1)] by blast
  obtain g1 where g1: "r = Running g1"
    using Cons.prems(3) r by (cases r) auto
  have inv1: "game_inv h w g1" and run1: "run_frames g1 is = Some (Running g')"
    and held1: "held_run g1 is"
    using ok g1 Cons.prems r by (auto simp: frame_ok_def)
  have d1: "move_delay g' = max min_move_delay (move_delay g1 - acceleration_rate * int (move_count g1 is))"
    using Cons.IH [OF inv1 held1 run1] .
  have cnt: "move_count g (i # is) = moved g g1 + move_count g1 is"
    using r g1 by simp
  have "move_delay g1 = (if moved g g1 = 0 then move_delay g
                         else max min_move_delay (move_delay g - acceleration_rate))"
    using held_frame_delay [OF Cons.prems(1) _ _ f] Cons.prems(2) r g1 by auto
  then show ?case
    using d1 cnt max_delay_step [of "move_delay g" "move_count g1 is"]
    by (auto simp: moved_def split: if_splits)
qed

lemma scan_directions_height_two: "scan_directions m width 2 p ds = Some None"
  by (induction m width "2::int" p ds rule: scan_directions.induct) (auto simp: Let_def)

lemma generate_maze_height_two: "generate_maze rs k m width 2 = Some (Some m)"
proof -
  have "gen_iteration rs width 2 (gen_init k m) =
          Some ((gen_init k m)\<lparr>gdirs := fst (random_shuffle rs k directions0),
                                grng := snd (random_shuffle rs k directions0), gstack := []\<rparr>)"
    by (simp add: gen_iteration_def gen_init_def scan_directions_height_two split: prod.splits)
  then show ?thesis
    by (simp add: generate_maze_def while_option_unfold [of gen_continue] gen_continue_def
                  gen_body_def gen_init_def)
qed

text \<open>
  C27. The program does not check its dimensions (lines 6 and 128-134). With a maze of
  height 2 and any width of at least 3, generation ends at once (no direction passes the
  range test \<open>1 \<le> nx < HEIGHT - 1\<close>) and setup succeeds, but the player starts on
  the last row; the first key press with Down held (and Up not held) reads
  \<open>maze[2][1]\<close>, which raises \<open>IndexError\<close>, whatever the clock and the random
  stream. The specification asks for invalid dimensions to be rejected before generation.
\<close>

theorem height_two_down_raises:
  assumes "3 \<le> width" and "\<not> key_up (pressed i)" and "key_down (pressed i)"
    and "KEYDOWN \<in> set (events i)" and "QUIT \<notin> set (events i)"
  shows "\<exists>g. setup_game width 2 rs k t0 = Some (Some g) \<and> game_frame g i = None"
proof -
  let ?m0 = "[replicate (nat width) Wall, (replicate (nat width) Wall)[1 := Open]]"
  let ?m2 = "?m0[0 := (?m0 ! 0)[nat (width - 2) := Open]]"
  have i0: "initialize_maze width 2 = Some ?m0"
    using assms(1) by (simp add: initialize_maze_def grid_set_def py_nth_def py_update_def
                                  py_index_def numeral_2_eq_2)
  have s2: "grid_set ?m0 0 (width - 2) Open = Some ?m2"
    using assms(1) by (simp add: grid_set_def py_nth_def py_update_def py_index_def)
  let ?g = "\<lparr>maze = ?m2, player_pos = (1, 1), exit_pos = (0, width - 2),
             move_delay = initial_move_delay, last_move_time = t0,
             movement_direction = None, game_won = False, display_start_message = True\<rparr>"
  have s: "setup_game width 2 rs k t0 = Some (Some ?g)"
    using i0 s2 by (simp add: setup_game_def generate_maze_height_two)
  have "update_movement (ticks i) (pressed i) (?g\<lparr>display_start_message := False\<rparr>) = None"
    using assms(2,3) by (simp add: update_movement_def choose_direction_def direction_priority_def
                                   grid_get_def py_nth_def py_index_def)
  then have "game_frame ?g i = None"
    using game_frame_play [of i ?g] assms(4,5) by simp
  then show ?thesis
    using s by blast
qed

subsection \<open>The speed limit\<close>

lemma game_frame_move_time:
  assumes inv: "game_inv h w g" and fr: "game_frame g i = Some r"
    and r: "r = Running g' \<or> r = Win_exit g'"
  shows "last_move_time g + int (moved g g') * (min_move_delay + 1) \<le> last_move_time g'"
proof (cases "QUIT \<in> set (events i)")
  case True
  then show ?thesis
    using fr r by (simp add: game_frame_def process_events_eq)
next
  case False
  show ?thesis
  proof (cases "display_start_message g \<and> KEYDOWN \<notin> set (events i)")
    case True
    then have "g' = g"
      using fr r False by (auto simp: game_frame_def process_events_eq Let_def)
    then show ?thesis
      by (simp add: moved_def)
  next
    case play: False
    have ng: "\<not> game_won g"
      using inv by (simp add: game_inv_def)
    let ?g1 = "g\<lparr>display_start_message := False\<rparr>"
    have "play_inv h w ?g1"
      using inv by (simp add: game_inv_def play_inv_def)
    moreover obtain g2 where u: "update_movement (ticks i) (pressed i) ?g1 = Some g2" and "g' = g2"
      using fr r game_frame_play [OF False play ng] by (auto split: if_splits)
    ultimately show ?thesis
      using update_movement_move_time [of h w ?g1 "ticks i" "pressed i" g2]
      by (auto simp: moved_def)
  qed
qed

text \<open>
  C23. The player never moves faster than one cell per \<open>min_move_delay + 1\<close> = 51 ms of
  the clock: over any run of frames, the clock reading of the last move is at least
  51 ms per move later than that of the move before the run (a move needs
  \<open>current_time - last_move_time > move_delay \<ge> 50\<close>, lines 179 and 191-192), whatever
  the keys and however the clock readings are spaced.
\<close>

theorem run_frames_speed_limit:
  assumes "game_inv h w g" and "run_frames g is = Some r" and "r = Running g' \<or> r = Win_exit g'"
  shows "last_move_time g + int (move_count g is) * (min_move_delay + 1) \<le> last_move_time g'"
  using assms
proof (induction "is" arbitrary: g)
  case Nil
  then show ?case by auto
next
  case (Cons i "is")
  obtain r1 where fr: "game_frame g i = Some r1" and ok: "frame_ok h w g r1"
    using game_frame_inv [OF Cons.prems(1)] by blast
  show ?case
  proof (cases r1)
    case (Running g1)
    then have inv1: "game_inv h w g1"
      using ok by (simp add: frame_ok_def)
    have "last_move_time g + int (moved g g1) * (min_move_delay + 1) \<le> last_move_time g1"
      using game_frame_move_time [OF Cons.prems(1) fr] Running by blast
    moreover have "run_frames g1 is = Some r"
      using Cons.prems(2) fr Running by simp
    then have "last_move_time g1 + int (move_count g1 is) * (min_move_delay + 1) \<le> last_move_time g'"
      using Cons.IH [OF inv1 _ Cons.prems(3)] by blast
    ultimately show ?thesis
      using fr Running by (simp add: algebra_simps)
  next
    case Quit_exit
    then show ?thesis
      using Cons.prems(2,3) fr by simp
  next
    case (Win_exit g1)
    then have "r = Win_exit g1" and "g1 = g'"
      using Cons.prems(2,3) fr by auto
    then show ?thesis
      using game_frame_move_time [OF Cons.prems(1) fr] Win_exit fr by simp
  qed
qed

subsection \<open>Refinement of the phase machine\<close>

inductive_cases phase_step_WonE: "phase_step Won q"

inductive_simps phase_step_simps: "phase_step p q"

lemma Won_terminal: "\<not> phase_step Won q"
  using phase_step_WonE by blast

lemma game_frame_phase:
  assumes inv: "game_inv h w g" and fr: "game_frame g i = Some r"
    and r: "r = Running g' \<or> r = Win_exit g'"
  shows "phase_step\<^sup>*\<^sup>* (game_phase g) (game_phase g') \<and> (r = Win_exit g' \<longrightarrow> game_phase g' = Won)"
proof (cases "QUIT \<in> set (events i)")
  case True
  then show ?thesis
    using fr r by (simp add: game_frame_def process_events_eq)
next
  case False
  define g1 where "g1 = g\<lparr>display_start_message := display_start_message g \<and> KEYDOWN \<notin> set (events i)\<rparr>"
  have nw: "\<not> game_won g"
    using inv by (simp add: game_inv_def)
  have steps: "phase_step\<^sup>*\<^sup>* AwaitingStart Playing" "phase_step\<^sup>*\<^sup>* AwaitingStart Won"
    "phase_step\<^sup>*\<^sup>* Playing Won"
    by (auto intro: phase_step.intros rtranclp.rtrancl_into_rtrancl)
  show ?thesis
  proof (cases "display_start_message g1")
    case True
    then have "r = Running g1"
      using fr False nw by (simp add: game_frame_def process_events_eq g1_def Let_def)
    moreover have "display_start_message g" and "\<not> game_won g1"
      using True nw by (simp_all add: g1_def)
    ultimately show ?thesis
      using r True nw by (auto simp: game_phase_def)
  next
    case ds: False
    obtain g2 where u: "update_movement (ticks i) (pressed i) g1 = Some g2"
      and res: "r = (if game_won g2 then Win_exit g2 else Running g2)"
      using fr False nw ds
      by (auto simp: game_frame_def process_events_eq g1_def Let_def split: option.splits
               dest: update_movement_maze)
    have d2: "\<not> display_start_message g2"
      using update_movement_maze [OF u] ds by simp
    have g': "g' = g2"
      using r res by (auto split: if_splits)
    show ?thesis
      using res r g' d2 nw steps by (cases "display_start_message g") (auto simp: game_phase_def)
  qed
qed

text \<open>
  C14. The main loop refines the phase machine of the specification: over any run of
  frames the phase read from \<open>display_start_message\<close> and \<open>game_won\<close> moves along
  \<open>AwaitingStart \<rightarrow> Playing \<rightarrow> Won\<close> (a frame may take two steps: the first key
  press also runs the movement update, which can win), and the program exits with the
  win message only in phase \<open>Won\<close>.
\<close>

theorem run_frames_phase:
  assumes "game_inv h w g" and "run_frames g fs = Some r" and "r = Running g' \<or> r = Win_exit g'"
  shows "phase_step\<^sup>*\<^sup>* (game_phase g) (game_phase g') \<and> (r = Win_exit g' \<longrightarrow> game_phase g' = Won)"
  using assms
proof (induction fs arbitrary: g)
  case Nil
  then show ?case by auto
next
  case (Cons i fs)
  obtain r0 where r0: "game_frame g i = Some r0" and ok: "frame_ok h w g r0"
    using game_frame_inv [OF Cons.prems(1)] by blast
  show ?case
  proof (cases r0)
    case (Running g1)
    have inv1: "game_inv h w g1"
      using ok Running by (simp add: frame_ok_def)
    have p1: "phase_step\<^sup>*\<^sup>* (game_phase g) (game_phase g1)"
      using game_frame_phase [OF Cons.prems(1) r0] Running by simp
    have "run_frames g1 fs = Some r"
      using Cons.prems(2) r0 Running by simp
    then show ?thesis
      using Cons.IH [OF inv1 _ Cons.prems(3)] p1 by (meson rtranclp_trans)
  next
    case Quit_exit
    then show ?thesis
      using Cons.prems(2,3) r0 by simp
  next
    case (Win_exit g1)
    then have "r = r0"
      using Cons.prems(2) r0 by simp
    then show ?thesis
      using game_frame_phase [OF Cons.prems(1) r0] Cons.prems(3) by simp
  qed
qed

lemma three_by_three_first_key:
  assumes inv: "game_inv 3 3 g" and ds: "display_start_message g"
    and i: "events i = [KEYDOWN]"
  shows "\<exists>g'. game_frame g i = Some (Win_exit g')"
proof -
  have nw: "\<not> game_won g"
    using inv by (simp add: game_inv_def)
  have "play_inv 3 3 (g\<lparr>display_start_message := False\<rparr>)"
    using inv by (simp add: game_inv_def play_inv_def)
  then obtain g2 where u: "update_movement (ticks i) (pressed i) (g\<lparr>display_start_message := False\<rparr>) = Some g2"
    using update_movement_play_inv by blast
  have fr: "game_frame g i = Some (if game_won g2 then Win_exit g2 else Running g2)"
    using game_frame_play [of i g] i nw u by simp
  have d2: "\<not> display_start_message g2"
    using update_movement_maze [OF u] by simp
  obtain r where r: "game_frame g i = Some r" and ok: "frame_ok 3 3 g r"
    using game_frame_inv [OF inv] by blast
  show ?thesis
  proof (cases "game_won g2")
    case True
    then show ?thesis
      using fr by simp
  next
    case False
    then have "r = Running g2"
      using fr r by simp
    then have inv2: "game_inv 3 3 g2"
      using ok by (simp add: frame_ok_def)
    then have "interior 3 3 (player_pos g2)"
      using play_inv_interior [of 3 3 g2] by (simp add: game_inv_def)
    then have "player_pos g2 = (1, 1)"
      by (cases "player_pos g2") (simp add: interior_def)
    then have False
      using inv2 d2 by (auto simp: game_inv_def)
    then show ?thesis ..
  qed
qed

subsection \<open>Witnesses\<close>

lemma demo_game_inv: "game_inv 5 5 demo_game"
  using demo_game_play_inv by (simp add: game_inv_def demo_game_def)

lemma demo_game_inv_32: "game_inv 5 5 (demo_game\<lparr>player_pos := (3, 2)\<rparr>)"
  by (simp add: game_inv_def play_inv_def demo_game_def demo_maze_def grid_dims_def
      border_walls_def in_grid_def cell_at_def interior_def min_move_delay_def
      initial_move_delay_def All_less_Suc)

theorem game_frame_quit_witness:
  "game_frame demo_game \<lparr>events = [KEYDOWN, QUIT], ticks = 500, pressed = keys_only DOWN\<rparr> =
     Some Quit_exit"
  by (rule game_frame_quit) simp

theorem game_frame_start_screen_witness:
  "game_frame (demo_game\<lparr>display_start_message := True\<rparr>) (frame_at 500 (keys_only DOWN)) =
     Some (Running (demo_game\<lparr>display_start_message := True\<rparr>))"
  by (rule game_frame_start_screen) (simp_all add: frame_at_def)

theorem game_frame_first_key_witness:
  "game_frame (demo_game\<lparr>display_start_message := True\<rparr>)
     \<lparr>events = [KEYDOWN], ticks = 300, pressed = keys_only DOWN\<rparr> =
   Some (Running (demo_game\<lparr>player_pos := (2, 1), last_move_time := 300, move_delay := 110,
                               movement_direction := Some DOWN\<rparr>))"
proof -
  have h1: "display_start_message (demo_game\<lparr>display_start_message := True\<rparr>)"
    by simp
  have h2: "\<not> game_won (demo_game\<lparr>display_start_message := True\<rparr>)"
    by (simp add: demo_game_def)
  have eq: "demo_game\<lparr>display_start_message := False\<rparr> = demo_game"
    by (simp add: demo_game_def)
  from game_frame_first_key [OF h1 h2,
      of "\<lparr>events = [KEYDOWN], ticks = 300, pressed = keys_only DOWN\<rparr>"]
  have "game_frame (demo_game\<lparr>display_start_message := True\<rparr>)
          \<lparr>events = [KEYDOWN], ticks = 300, pressed = keys_only DOWN\<rparr> =
        map_option (\<lambda>g2. if game_won g2 then Win_exit g2 else Running g2)
          (update_movement 300 (keys_only DOWN) demo_game)"
    by (simp add: eq)
  moreover have "\<not> game_won (demo_game\<lparr>player_pos := (2, 1), last_move_time := 300,
                    move_delay := 110, movement_direction := Some DOWN\<rparr>)"
    by (simp add: demo_game_def)
  ultimately show ?thesis
    by (simp add: demo_move_down)
qed

theorem game_frame_win_exact_witness:
  "game_frame (demo_game\<lparr>player_pos := (3, 2)\<rparr>) (frame_at 300 (keys_only RIGHT)) =
     Some (Win_exit (demo_game\<lparr>player_pos := (3, 3), last_move_time := 300, move_delay := 110,
                               movement_direction := Some RIGHT, game_won := True\<rparr>)) \<and>
   player_pos (demo_game\<lparr>player_pos := (3, 3)\<rparr>) = exit_pos demo_game"
proof -
  have fr: "game_frame (demo_game\<lparr>player_pos := (3, 2)\<rparr>) (frame_at 300 (keys_only RIGHT)) =
     Some (Win_exit (demo_game\<lparr>player_pos := (3, 3), last_move_time := 300, move_delay := 110,
                               movement_direction := Some RIGHT, game_won := True\<rparr>))"
    using game_frame_play [of "frame_at 300 (keys_only RIGHT)" "demo_game\<lparr>player_pos := (3, 2)\<rparr>"]
      demo_reach_exit by (simp add: frame_at_def demo_game_def)
  show ?thesis
    using fr game_frame_win_exact [OF demo_game_inv_32 fr] by simp
qed

theorem run_frames_held_delay_witness:
  "run_frames demo_game [frame_at 300 (keys_only DOWN), frame_at 350 (keys_only DOWN), frame_at 500 (keys_only DOWN)] =
     Some (Running (demo_game\<lparr>player_pos := (3, 1), last_move_time := 500, move_delay := 100,
                               movement_direction := Some DOWN\<rparr>)) \<and>
   move_count demo_game [frame_at 300 (keys_only DOWN), frame_at 350 (keys_only DOWN), frame_at 500 (keys_only DOWN)] = 2 \<and>
   (100::int) = max min_move_delay (move_delay demo_game - acceleration_rate * int (move_count demo_game [frame_at 300 (keys_only DOWN), frame_at 350 (keys_only DOWN), frame_at 500 (keys_only DOWN)]))"
proof -
  have run: "run_frames demo_game [frame_at 300 (keys_only DOWN), frame_at 350 (keys_only DOWN), frame_at 500 (keys_only DOWN)] =
     Some (Running (demo_game\<lparr>player_pos := (3, 1), last_move_time := 500, move_delay := 100,
                               movement_direction := Some DOWN\<rparr>))"
    by (simp add: game_frame_def process_events_eq frame_at_def demo_eval keys_only_def)
  have held: "held_run demo_game [frame_at 300 (keys_only DOWN), frame_at 350 (keys_only DOWN), frame_at 500 (keys_only DOWN)]"
    by (simp add: game_frame_def process_events_eq frame_at_def demo_eval keys_only_def
                  open_target_def cell_at_def)
  have cnt: "move_count demo_game [frame_at 300 (keys_only DOWN), frame_at 350 (keys_only DOWN), frame_at 500 (keys_only DOWN)] = 2"
    by (simp add: game_frame_def process_events_eq frame_at_def demo_eval keys_only_def moved_def)
  show ?thesis
    using run cnt run_frames_held_delay [OF demo_game_inv held run] by simp
qed

theorem run_frames_phase_witness:
  "phase_step\<^sup>*\<^sup>* (game_phase (demo_game\<lparr>display_start_message := True\<rparr>))
     (game_phase (demo_game\<lparr>player_pos := (2, 1), last_move_time := 300, move_delay := 110,
                             movement_direction := Some DOWN\<rparr>)) \<and>
   game_phase (demo_game\<lparr>display_start_message := True\<rparr>) = AwaitingStart \<and>
   game_phase (demo_game\<lparr>player_pos := (2, 1), last_move_time := 300, move_delay := 110,
                          movement_direction := Some DOWN\<rparr>) = Playing"
proof -
  have inv: "game_inv 5 5 (demo_game\<lparr>display_start_message := True\<rparr>)"
    using demo_game_inv by (simp add: game_inv_def play_inv_def)
  have run: "run_frames (demo_game\<lparr>display_start_message := True\<rparr>)
      [\<lparr>events = [KEYDOWN], ticks = 300, pressed = keys_only DOWN\<rparr>] =
    Some (Running (demo_game\<lparr>player_pos := (2, 1), last_move_time := 300, move_delay := 110,
                              movement_direction := Some DOWN\<rparr>))"
    by (simp add: game_frame_def process_events_eq demo_eval keys_only_def)
  show ?thesis
    using run_frames_phase [OF inv run] by (simp add: game_phase_def demo_game_def)
qed

theorem run_frames_speed_limit_witness:
  "move_count demo_game [frame_at 300 (keys_only DOWN), frame_at 500 (keys_only DOWN)] = 2 \<and>
   last_move_time demo_game + 2 * (min_move_delay + 1) \<le> 500"
proof -
  have run: "run_frames demo_game [frame_at 300 (keys_only DOWN), frame_at 500 (keys_only DOWN)] =
     Some (Running (demo_game\<lparr>player_pos := (3, 1), last_move_time := 500, move_delay := 100,
                               movement_direction := Some DOWN\<rparr>))"
    by (simp add: game_frame_def process_events_eq frame_at_def demo_eval keys_only_def)
  have count: "move_count demo_game [frame_at 300 (keys_only DOWN), frame_at 500 (keys_only DOWN)] = 2"
    by (simp add: game_frame_def process_events_eq frame_at_def demo_eval keys_only_def moved_def)
  show ?thesis
    using run_frames_speed_limit [OF demo_game_inv run] count by simp
qed

theorem height_two_down_raises_witness:
  "\<exists>g. setup_game WIDTH 2 (\<lambda>_. 0) 0 0 = Some (Some g) \<and>
       game_frame g \<lparr>events = [KEYDOWN], ticks = 1, pressed = keys_only DOWN\<rparr> = None"
  using height_two_down_raises [of WIDTH "\<lparr>events = [KEYDOWN], ticks = 1, pressed = keys_only DOWN\<rparr>"]
  by (simp add: WIDTH_def keys_only_def)

end
