(* ===== verification/Maze_Graph.thy ===== *)
theory Maze_Graph
  imports Maze_Prelude
begin

text \<open>
  The maze as a graph, the vocabulary in which the generator's result and the game's
  winnability are stated. Two cells are adjacent when they differ by one step along a
  row or a column (the four moves of \<open>update_movement\<close>); \<open>reach h w m p q\<close> says that
  \<open>q\<close> is reached from \<open>p\<close> by a walk of adjacent open cells inside the grid.
  The depth-first search of \<open>generate_maze\<close> works on the cells with two odd
  coordinates (\<open>odd_cell\<close>) and moves between them by steps of two (\<open>step2\<close>).
\<close>

subsection \<open>Definitions\<close>

definition odd_cell :: "int \<Rightarrow> int \<Rightarrow> pos \<Rightarrow> bool" where
  "odd_cell h w p \<longleftrightarrow> interior h w p \<and> odd (fst p) \<and> odd (snd p)"

definition adjacent :: "pos \<Rightarrow> pos \<Rightarrow> bool" where
  "adjacent p q \<longleftrightarrow> \<bar>fst p - fst q\<bar> + \<bar>snd p - snd q\<bar> = 1"

inductive reach :: "int \<Rightarrow> int \<Rightarrow> maze \<Rightarrow> pos \<Rightarrow> pos \<Rightarrow> bool" for h w m where
  reach_refl: "reach h w m p p"
| reach_step: "reach h w m p q \<Longrightarrow> adjacent q r \<Longrightarrow> in_grid h w r \<Longrightarrow> cell_at m r = Open \<Longrightarrow>
     reach h w m p r"

text \<open>\<open>m'\<close> keeps open every in-grid cell that is open in \<open>m\<close>.\<close>

definition opens_more :: "int \<Rightarrow> int \<Rightarrow> maze \<Rightarrow> maze \<Rightarrow> bool" where
  "opens_more h w m m' \<longleftrightarrow> (\<forall>r. in_grid h w r \<longrightarrow> cell_at m r = Open \<longrightarrow> cell_at m' r = Open)"

definition step2 :: "pos \<Rightarrow> pos \<Rightarrow> pos" where
  "step2 p d = (fst p + fst d, snd p + snd d)"

subsection \<open>Lemmas\<close>

lemma reach_mono:
  "reach h w m p q \<Longrightarrow> opens_more h w m m' \<Longrightarrow> reach h w m' p q"
  by (induction rule: reach.induct) (auto simp: opens_more_def intro: reach.intros)

lemma reach_trans:
  "reach h w m q r \<Longrightarrow> reach h w m p q \<Longrightarrow> reach h w m p r"
  by (induction rule: reach.induct) (auto intro: reach.intros)

lemma odd_nat_form:
  assumes "odd (i::int)" and "1 \<le> i"
  shows "\<exists>a::nat. i = 2 * int a + 1"
proof -
  have "i = 2 * (i div 2) + 1" and "0 \<le> i div 2"
    using assms by presburger+
  then show ?thesis
    by (intro exI [of _ "nat (i div 2)"]) simp
qed

lemma odd_cell_in_grid: "odd_cell h w p \<Longrightarrow> in_grid h w p"
  by (simp add: odd_cell_def interior_in_grid)

lemma cell_not_wall: "c \<noteq> Wall \<longleftrightarrow> c = Open"
  by (cases c) simp_all

lemma adjacent_cases:
  "adjacent p q \<Longrightarrow>
     q = (fst p - 1, snd p) \<or> q = (fst p + 1, snd p) \<or> q = (fst p, snd p - 1) \<or> q = (fst p, snd p + 1)"
  by (cases p; cases q) (auto simp: adjacent_def abs_if split: if_splits)

lemma adjacent_sym: "adjacent p q \<longleftrightarrow> adjacent q p"
  by (simp add: adjacent_def abs_minus_commute)

lemma reach_open: "reach h w m p q \<Longrightarrow> q = p \<or> (in_grid h w q \<and> cell_at m q = Open)"
  by (induction rule: reach.induct) auto

text \<open>Opening two cells \<open>u\<close>, \<open>t\<close> in a row next to an open cell \<open>p\<close>: if every
  open cell was reached from \<open>s\<close>, every open cell still is.\<close>

lemma reach_open_path2:
  assumes reach0: "\<forall>q. in_grid h w q \<longrightarrow> cell_at m q = Open \<longrightarrow> reach h w m s q"
    and m2: "\<And>q. in_grid h w q \<Longrightarrow> cell_at m2 q = (if q = t \<or> q = u then Open else cell_at m q)"
    and p: "in_grid h w p" "cell_at m p = Open"
    and adj: "adjacent p u" "adjacent u t" and gu: "in_grid h w u" and gt: "in_grid h w t"
    and q: "in_grid h w q" "cell_at m2 q = Open"
  shows "reach h w m2 s q"
proof -
  have more: "opens_more h w m m2"
    using m2 by (simp add: opens_more_def)
  have rp: "reach h w m2 s p"
    using reach0 p reach_mono [OF _ more] by blast
  have ru: "reach h w m2 s u"
    using reach_step [OF rp adj(1) gu] m2 [OF gu] by simp
  have rt: "reach h w m2 s t"
    using reach_step [OF ru adj(2) gt] m2 [OF gt] by simp
  consider "q = t" | "q = u" | "q \<noteq> t" "q \<noteq> u" by blast
  then show ?thesis
  proof cases
    case 3
    then have "cell_at m q = Open"
      using q m2 by simp
    then show ?thesis
      using reach0 q reach_mono [OF _ more] by blast
  qed (use rt ru in simp_all)
qed

end
