(* ===== verification/Maze_Structure.thy ===== *)
theory Maze_Structure
  imports Maze_Generator Maze_Graph
begin

text \<open>
  The shape of the maze \<open>generate_maze\<close> returns (lines 37-54), the guarantees the
  specification gives for the generator: it is connected (every interior cell with two
  odd coordinates is open and reached from (1,1)), and it is a tree (every open cell is
  an odd cell or a passage between two of them, and there is one open odd cell more than
  open passages). Both are loop invariants of the \<open>while_option\<close> loop, proved
  together with \<open>gen_inv\<close> of \<open>Maze_Generator\<close>.
\<close>

subsection \<open>Definitions\<close>

text \<open>
  \<open>closed_cells\<close>: every odd cell two steps away from an open odd cell is open.
  \<open>dfs_inv\<close> is the search's invariant: the stack holds distinct open odd cells, every
  open cell is reached from the start (1,1) through open cells, and an open odd cell
  off the stack has all its odd neighbours open (it was popped after its scan found no
  wall among them).
\<close>

definition closed_cells :: "int \<Rightarrow> int \<Rightarrow> maze \<Rightarrow> bool" where
  "closed_cells h w m \<longleftrightarrow>
     (\<forall>p d. odd_cell h w p \<longrightarrow> cell_at m p = Open \<longrightarrow> d \<in> set directions0 \<longrightarrow>
            odd_cell h w (step2 p d) \<longrightarrow> cell_at m (step2 p d) = Open)"

definition dfs_inv :: "int \<Rightarrow> int \<Rightarrow> gen_state \<Rightarrow> bool" where
  "dfs_inv h w g \<longleftrightarrow>
     distinct (gstack g) \<and>
     (\<forall>p \<in> set (gstack g). odd_cell h w p \<and> cell_at (gmaze g) p = Open) \<and>
     (\<forall>p. in_grid h w p \<longrightarrow> cell_at (gmaze g) p = Open \<longrightarrow> reach h w (gmaze g) (1, 1) p) \<and>
     (\<forall>p d. odd_cell h w p \<longrightarrow> cell_at (gmaze g) p = Open \<longrightarrow> p \<notin> set (gstack g) \<longrightarrow>
            d \<in> set directions0 \<longrightarrow> odd_cell h w (step2 p d) \<longrightarrow>
            cell_at (gmaze g) (step2 p d) = Open)"

text \<open>
  The tree shape. \<open>mid2 p d\<close> is the cell between \<open>p\<close> and \<open>step2 p d\<close>, the
  one line 47 opens. \<open>passage_cell\<close>: a cell between two odd cells along a row or
  a column; \<open>passage_open\<close>: both of its odd ends are open. \<open>carve_inv\<close>: every
  open cell is an odd cell or a passage whose two ends are open. The counts are taken
  over the list \<open>grid_cells\<close> of all positions of the grid; \<open>tree_inv\<close> says
  that there is one open odd cell more than open passages, the edge count of a tree
  whose nodes are the open odd cells and whose edges are the open passages.
\<close>

definition mid2 :: "pos \<Rightarrow> pos \<Rightarrow> pos" where
  "mid2 p d = (fst p + fst d div 2, snd p + snd d div 2)"

definition passage_cell :: "int \<Rightarrow> int \<Rightarrow> pos \<Rightarrow> bool" where
  "passage_cell h w q \<longleftrightarrow>
     (even (fst q) \<and> odd_cell h w (fst q - 1, snd q) \<and> odd_cell h w (fst q + 1, snd q)) \<or>
     (even (snd q) \<and> odd_cell h w (fst q, snd q - 1) \<and> odd_cell h w (fst q, snd q + 1))"

definition passage_open :: "maze \<Rightarrow> pos \<Rightarrow> bool" where
  "passage_open m q \<longleftrightarrow>
     (if even (fst q) then cell_at m (fst q - 1, snd q) = Open \<and> cell_at m (fst q + 1, snd q) = Open
      else cell_at m (fst q, snd q - 1) = Open \<and> cell_at m (fst q, snd q + 1) = Open)"

definition carve_inv :: "int \<Rightarrow> int \<Rightarrow> maze \<Rightarrow> bool" where
  "carve_inv h w m \<longleftrightarrow>
     (\<forall>q. in_grid h w q \<longrightarrow> cell_at m q = Open \<longrightarrow>
          odd_cell h w q \<or> (passage_cell h w q \<and> passage_open m q))"

definition grid_cells :: "int \<Rightarrow> int \<Rightarrow> pos list" where
  "grid_cells h w = List.product [0..h - 1] [0..w - 1]"

definition open_odd_count :: "int \<Rightarrow> int \<Rightarrow> maze \<Rightarrow> nat" where
  "open_odd_count h w m = length (filter (\<lambda>q. cell_at m q = Open \<and> odd_cell h w q) (grid_cells h w))"

definition open_passage_count :: "int \<Rightarrow> int \<Rightarrow> maze \<Rightarrow> nat" where
  "open_passage_count h w m =
     length (filter (\<lambda>q. cell_at m q = Open \<and> passage_cell h w q) (grid_cells h w))"

definition tree_inv :: "int \<Rightarrow> int \<Rightarrow> maze \<Rightarrow> bool" where
  "tree_inv h w m \<longleftrightarrow> carve_inv h w m \<and> open_odd_count h w m = open_passage_count h w m + 1"

subsection \<open>One iteration of the search\<close>

text \<open>
  An iteration either pops (the scan found no wall two steps away) or pushes: it opens
  the midpoint next to the top of the stack and the target, an odd cell that was a
  wall, next to the midpoint.
\<close>

lemma gen_iteration_cases:
  assumes gi: "gen_inv h w g" and it: "gen_iteration rs w h g = Some g'"
  obtains (pop) x y ds k where "last (gstack g) = (x, y)" "set ds = set directions0"
      "scan_directions (gmaze g) w h (x, y) ds = Some None"
      "g' = g\<lparr>gdirs := ds, grng := k, gstack := butlast (gstack g)\<rparr>"
  | (push) x y ds k dx dy m1 m2 where "last (gstack g) = (x, y)" "set ds = set directions0"
      "scan_directions (gmaze g) w h (x, y) ds = Some (Some (dx, dy))"
      "grid_set (gmaze g) (x + dx div 2) (y + dy div 2) Open = Some m1"
      "grid_set m1 (x + dx) (y + dy) Open = Some m2"
      "g' = g\<lparr>gdirs := ds, grng := k, gmaze := m2, gstack := gstack g @ [(x + dx, y + dy)]\<rparr>"
proof -
  have ds: "set ds = set directions0" if "random_shuffle rs (grng g) (gdirs g) = (ds, k)" for ds k
    using that gi random_shuffle_set [of rs "grng g" "gdirs g"] by (simp add: gen_inv_def)
  show ?thesis
  proof (cases rule: gen_iteration_shapes [of rs w h g])
    case error
    then show ?thesis
      using it by simp
  next
    case (pop x y ds k)
    then show ?thesis
      using that(1) [OF pop(1) ds [OF pop(2)] pop(3)] it by simp
  next
    case (push x y ds k dx dy m1 m2)
    then show ?thesis
      using that(2) [OF push(1) ds [OF push(2)] push(3-5)] it by simp
  qed
qed

lemma scan_directions_none:
  "scan_directions m width height (x, y) ds = Some None \<Longrightarrow> (dx, dy) \<in> set ds \<Longrightarrow>
     interior height width (x + dx, y + dy) \<Longrightarrow> grid_get m (x + dx) (y + dy) \<noteq> Some Wall"
  by (induction m width height "(x, y)" ds rule: scan_directions.induct)
     (auto simp: Let_def interior_def split: if_splits option.splits)

lemma directions0_cases:
  "d \<in> set directions0 \<Longrightarrow> d = (-2, 0) \<or> d = (2, 0) \<or> d = (0, -2) \<or> d = (0, 2)"
  by (auto simp: directions0_def)

lemma directions0_odd:
  "d \<in> set directions0 \<Longrightarrow> odd x \<Longrightarrow> odd y \<Longrightarrow> odd (x + fst d) \<and> odd (y + snd d)"
  by (auto simp: directions0_def)

lemma directions0_adjacent:
  "d \<in> set directions0 \<Longrightarrow>
     adjacent (x, y) (x + fst d div 2, y + snd d div 2) \<and>
     adjacent (x + fst d div 2, y + snd d div 2) (x + fst d, y + snd d)"
  by (auto simp: directions0_def adjacent_def)

lemma mid2_passage:
  assumes "d \<in> set directions0" and "odd_cell h w p" and "odd_cell h w (step2 p d)"
  shows "passage_cell h w (mid2 p d) \<and> \<not> odd_cell h w (mid2 p d) \<and>
         (passage_open m (mid2 p d) \<longleftrightarrow> cell_at m p = Open \<and> cell_at m (step2 p d) = Open)"
proof -
  obtain a b where p: "p = (a, b)" by fastforce
  have "odd a" "odd b"
    using assms(2) by (simp_all add: odd_cell_def p)
  then show ?thesis
    using directions0_cases [OF assms(1)] assms(2,3)
    by (auto simp: mid2_def step2_def passage_cell_def passage_open_def p odd_cell_def ac_simps)
qed

lemma odd_cell_not_passage: "odd_cell h w q \<Longrightarrow> \<not> passage_cell h w q"
  by (auto simp: odd_cell_def passage_cell_def)

lemma push_facts:
  assumes stk: "\<forall>p \<in> set (gstack g). odd_cell h w p \<and> cell_at (gmaze g) p = Open"
    and gi: "gen_inv h w g"
    and ne: "gstack g \<noteq> []" and xy: "last (gstack g) = (x, y)"
    and ds: "set ds = set directions0"
    and scan: "scan_directions (gmaze g) w h (x, y) ds = Some (Some (dx, dy))"
    and s1: "grid_set (gmaze g) (x + dx div 2) (y + dy div 2) Open = Some m1"
    and s2: "grid_set m1 (x + dx) (y + dy) Open = Some m2"
  shows "odd_cell h w (x, y) \<and> cell_at (gmaze g) (x, y) = Open \<and> (dx, dy) \<in> set directions0 \<and>
         odd_cell h w (x + dx, y + dy) \<and> cell_at (gmaze g) (x + dx, y + dy) = Wall \<and>
         interior h w (x + dx div 2, y + dy div 2) \<and> grid_dims h w m2 \<and>
         (\<forall>q. in_grid h w q \<longrightarrow>
              cell_at m2 q = (if q = (x + dx, y + dy) \<or> q = (x + dx div 2, y + dy div 2) then Open
                              else cell_at (gmaze g) q))"
proof -
  let ?m = "gmaze g" and ?t = "(x + dx, y + dy)" and ?mid = "(x + dx div 2, y + dy div 2)"
  have dims: "grid_dims h w ?m"
    using gi by (simp add: gen_inv_def)
  have top: "odd_cell h w (x, y)" "cell_at ?m (x, y) = Open"
    using stk ne xy last_in_set [OF ne] by metis+
  have found: "(dx, dy) \<in> set directions0" "interior h w ?t"
    using scan_directions_found [OF scan] ds by simp_all
  have mid: "interior h w ?mid"
    using directions0_midpoint [OF found(1)] top(1) found(2) by (simp add: odd_cell_def)
  have twall: "cell_at ?m ?t = Wall"
    using scan_directions_wall [OF scan] grid_get_in [OF dims interior_in_grid [OF found(2)]] by simp
  have bw: "border_walls h w ?m"
    using gi by (simp add: gen_inv_def)
  obtain m1' where s1': "grid_set ?m (x + dx div 2) (y + dy div 2) Open = Some m1'"
    and dims1: "grid_dims h w m1'" and bw1: "border_walls h w m1'"
    and c1: "\<And>q. in_grid h w q \<Longrightarrow> cell_at m1' q = (if q = ?mid then Open else cell_at ?m q)"
    using grid_set_open_interior [OF dims bw mid, unfolded fst_conv snd_conv] by blast
  obtain m2' where s2': "grid_set m1' (x + dx) (y + dy) Open = Some m2'"
    and dims2: "grid_dims h w m2'"
    and c2: "\<And>q. in_grid h w q \<Longrightarrow> cell_at m2' q = (if q = ?t then Open else cell_at m1' q)"
    using grid_set_open_interior [OF dims1 bw1 found(2), unfolded fst_conv snd_conv] by blast
  have m2: "m2 = m2'"
    using s1 s2 s1' s2' by simp
  have cell2: "cell_at m2 q = (if q = ?t \<or> q = ?mid then Open else cell_at ?m q)"
    if "in_grid h w q" for q
    using c1 [OF that] c2 [OF that] m2 by auto
  have todd: "odd_cell h w ?t"
    using directions0_odd [OF found(1), of x y] top(1) found(2) by (simp add: odd_cell_def)
  show ?thesis
    using top found(1) todd twall mid dims2 m2 cell2 by blast
qed

lemma push_geometry:
  assumes stk: "\<forall>p \<in> set (gstack g). odd_cell h w p \<and> cell_at (gmaze g) p = Open"
    and gi: "gen_inv h w g"
    and ne: "gstack g \<noteq> []" and xy: "last (gstack g) = (x, y)"
    and ds: "set ds = set directions0"
    and scan: "scan_directions (gmaze g) w h (x, y) ds = Some (Some (dx, dy))"
    and s1: "grid_set (gmaze g) (x + dx div 2) (y + dy div 2) Open = Some m1"
    and s2: "grid_set m1 (x + dx) (y + dy) Open = Some m2"
  shows "passage_cell h w (x + dx div 2, y + dy div 2) \<and> \<not> odd_cell h w (x + dx div 2, y + dy div 2) \<and>
         (\<forall>m. passage_open m (x + dx div 2, y + dy div 2) \<longleftrightarrow>
              cell_at m (x, y) = Open \<and> cell_at m (x + dx, y + dy) = Open) \<and>
         adjacent (x, y) (x + dx div 2, y + dy div 2) \<and>
         adjacent (x + dx div 2, y + dy div 2) (x + dx, y + dy)"
proof -
  have f: "odd_cell h w (x, y)" "(dx, dy) \<in> set directions0" "odd_cell h w (x + dx, y + dy)"
    using push_facts [OF stk gi ne xy ds scan s1 s2] by blast+
  have st: "step2 (x, y) (dx, dy) = (x + dx, y + dy)" and md: "mid2 (x, y) (dx, dy) = (x + dx div 2, y + dy div 2)"
    by (simp_all add: step2_def mid2_def)
  show ?thesis
    using mid2_passage [OF f(2) f(1), unfolded st md, OF f(3)] directions0_adjacent [OF f(2), of x y]
    by simp
qed

subsection \<open>Connectivity of the generated maze\<close>

text \<open>
  When the stack is empty, \<open>dfs_inv\<close> gives \<open>closed_cells\<close>, and from the open start
  cell \<open>closed_cells\<close> reaches every odd cell, row by row. \<open>dfs_inv\<close> holds for a
  grid whose only open cell is the start and is kept by both branches of an iteration:
  a pop happens only after the scan found no wall two steps away, and a push opens the
  midpoint next to the top of the stack and then the target next to the midpoint.
\<close>

lemma closed_first_row:
  assumes closed: "closed_cells h w m" and o11: "cell_at m (1, 1) = Open"
    and "odd_cell h w (1, 2 * int b + 1)"
  shows "cell_at m (1, 2 * int b + 1) = Open"
  using assms(3)
proof (induction b)
  case 0
  then show ?case using o11 by simp
next
  case (Suc b)
  have prev: "odd_cell h w (1, 2 * int b + 1)"
    using Suc.prems by (simp add: odd_cell_def interior_def)
  have dir: "(0, 2) \<in> set directions0"
    by (simp add: directions0_def)
  have st: "step2 (1, 2 * int b + 1) (0, 2) = (1, 2 * int (Suc b) + 1)"
    by (simp add: step2_def)
  show ?case
    using closed [unfolded closed_cells_def, rule_format, OF prev Suc.IH [OF prev] dir]
      Suc.prems unfolding st by blast
qed

lemma closed_all_odd:
  assumes closed: "closed_cells h w m" and o11: "cell_at m (1, 1) = Open"
    and p: "odd_cell h w p"
  shows "cell_at m p = Open"
proof -
  obtain a where a: "fst p = 2 * int a + 1"
    using p odd_nat_form [of "fst p"] unfolding odd_cell_def interior_def by blast
  obtain b where b: "snd p = 2 * int b + 1"
    using p odd_nat_form [of "snd p"] unfolding odd_cell_def interior_def by blast
  have ab: "p = (2 * int a + 1, 2 * int b + 1)"
    using a b by (metis prod.collapse)
  have "cell_at m (2 * int a + 1, 2 * int b + 1) = Open"
    using p unfolding ab
  proof (induction a)
    case 0
    then show ?case using closed_first_row [OF closed o11] by simp
  next
    case (Suc a)
    have prev: "odd_cell h w (2 * int a + 1, 2 * int b + 1)"
      using Suc.prems by (simp add: odd_cell_def interior_def)
    have dir: "(2, 0) \<in> set directions0"
      by (simp add: directions0_def)
    have st: "step2 (2 * int a + 1, 2 * int b + 1) (2, 0) = (2 * int (Suc a) + 1, 2 * int b + 1)"
      by (simp add: step2_def)
    show ?case
      using closed [unfolded closed_cells_def, rule_format, OF prev Suc.IH [OF prev] dir]
        Suc.prems unfolding st by blast
  qed
  then show ?thesis by (simp add: ab)
qed

lemma dfs_inv_pop:
  assumes inv: "dfs_inv h w g" and dims: "grid_dims h w (gmaze g)"
    and ne: "gstack g \<noteq> []" and xy: "last (gstack g) = (x, y)"
    and ds: "set ds = set directions0"
    and scan: "scan_directions (gmaze g) w h (x, y) ds = Some None"
  shows "dfs_inv h w (g\<lparr>gdirs := ds, grng := k, gstack := butlast (gstack g)\<rparr>)"
proof -
  let ?m = "gmaze g" and ?s = "gstack g"
  have split: "?s = butlast ?s @ [(x, y)]"
    using ne xy by (metis append_butlast_last_id)
  have closed: "cell_at ?m (step2 p d) = Open"
    if p: "odd_cell h w p" "cell_at ?m p = Open" "p \<notin> set (butlast ?s)"
      and d: "d \<in> set directions0" "odd_cell h w (step2 p d)" for p d
  proof (cases "p = (x, y)")
    case True
    have "(fst d, snd d) \<in> set ds" and "interior h w (x + fst d, y + snd d)"
      using d ds True by (simp_all add: odd_cell_def step2_def)
    then have "grid_get ?m (x + fst d) (y + snd d) \<noteq> Some Wall"
      using scan_directions_none [OF scan] by blast
    moreover have "grid_get ?m (x + fst d) (y + snd d) = Some (cell_at ?m (step2 p d))"
      using grid_get_in [OF dims odd_cell_in_grid [OF d(2)]] True by (simp add: step2_def)
    ultimately show ?thesis
      by (simp add: cell_not_wall)
  next
    case False
    then have "p \<notin> set ?s"
      using p(3) split by (metis butlast_snoc in_set_butlast_appendI rotate1.simps(2) set_rotate1 set_ConsD)
    then show ?thesis
      using inv p d unfolding dfs_inv_def by blast
  qed
  have "set (butlast ?s) \<subseteq> set ?s"
    by (rule in_set_butlastD [THEN subsetI])
  then show ?thesis
    using inv closed by (auto simp: dfs_inv_def distinct_butlast)
qed

text \<open>Opening an odd cell \<open>t\<close> pushed on the stack and a cell \<open>u\<close> that is not odd
  keeps the closure part of \<open>dfs_inv\<close>: the odd cells off the stack were open before.\<close>

lemma closed_open2:
  assumes closed0: "\<forall>p d. odd_cell h w p \<longrightarrow> cell_at m p = Open \<longrightarrow> p \<notin> set s \<longrightarrow>
                       d \<in> set directions0 \<longrightarrow> odd_cell h w (step2 p d) \<longrightarrow> cell_at m (step2 p d) = Open"
    and m2: "\<And>q. in_grid h w q \<Longrightarrow> cell_at m2 q = (if q = t \<or> q = u then Open else cell_at m q)"
    and u: "\<not> odd_cell h w u"
    and p: "odd_cell h w p" "cell_at m2 p = Open" "p \<notin> set (s @ [t])"
    and d: "d \<in> set directions0" "odd_cell h w (step2 p d)"
  shows "cell_at m2 (step2 p d) = Open"
proof -
  have "p \<noteq> u" "p \<noteq> t"
    using p(1,3) u by auto
  then have "cell_at m p = Open"
    using p(2) m2 [OF odd_cell_in_grid [OF p(1)]] by simp
  moreover have "p \<notin> set s"
    using p(3) by simp
  ultimately have "cell_at m (step2 p d) = Open"
    using closed0 [rule_format, OF p(1) _ _ d] by blast
  then show ?thesis
    using m2 [OF odd_cell_in_grid [OF d(2)]] by simp
qed

lemma dfs_inv_push:
  assumes inv: "dfs_inv h w g" and gi: "gen_inv h w g"
    and ne: "gstack g \<noteq> []" and xy: "last (gstack g) = (x, y)"
    and ds: "set ds = set directions0"
    and scan: "scan_directions (gmaze g) w h (x, y) ds = Some (Some (dx, dy))"
    and s1: "grid_set (gmaze g) (x + dx div 2) (y + dy div 2) Open = Some m1"
    and s2: "grid_set m1 (x + dx) (y + dy) Open = Some m2"
  shows "dfs_inv h w (g\<lparr>gdirs := ds, grng := k, gmaze := m2, gstack := gstack g @ [(x + dx, y + dy)]\<rparr>)"
proof -
  let ?m = "gmaze g" and ?s = "gstack g" and ?t = "(x + dx, y + dy)"
    and ?mid = "(x + dx div 2, y + dy div 2)"
  have stk0: "\<forall>p \<in> set ?s. odd_cell h w p \<and> cell_at ?m p = Open"
    using inv by (simp add: dfs_inv_def)
  have top: "odd_cell h w (x, y)" "cell_at ?m (x, y) = Open"
    and found: "(dx, dy) \<in> set directions0" and todd: "odd_cell h w ?t"
    and twall: "cell_at ?m ?t = Wall" and mid: "interior h w ?mid"
    and cell2: "\<And>q. in_grid h w q \<Longrightarrow>
      cell_at m2 q = (if q = ?t \<or> q = ?mid then Open else cell_at ?m q)"
    using push_facts [OF stk0 gi ne xy ds scan s1 s2] by blast+
  have more: "opens_more h w ?m m2"
    using cell2 by (simp add: opens_more_def)
  have midnot: "\<not> odd_cell h w ?mid" and adj: "adjacent (x, y) ?mid" "adjacent ?mid ?t"
    using push_geometry [OF stk0 gi ne xy ds scan s1 s2] by blast+
  have tnot: "?t \<notin> set ?s"
    using inv twall unfolding dfs_inv_def by force
  have stk: "\<forall>p \<in> set (?s @ [?t]). odd_cell h w p \<and> cell_at m2 p = Open"
    using inv more todd cell2 [OF odd_cell_in_grid [OF todd]]
    unfolding dfs_inv_def opens_more_def by (auto dest: odd_cell_in_grid)
  have reach_all: "reach h w m2 (1, 1) q" if "in_grid h w q" "cell_at m2 q = Open" for q
    using reach_open_path2 [OF _ cell2 odd_cell_in_grid [OF top(1)] top(2) adj
        interior_in_grid [OF mid] odd_cell_in_grid [OF todd] that] inv
    unfolding dfs_inv_def by blast
  have closed: "cell_at m2 (step2 p d) = Open"
    if "odd_cell h w p" "cell_at m2 p = Open" "p \<notin> set (?s @ [?t])"
      "d \<in> set directions0" "odd_cell h w (step2 p d)" for p d
    using closed_open2 [OF _ cell2 midnot that] inv unfolding dfs_inv_def by blast
  show ?thesis
    using inv tnot stk reach_all closed unfolding dfs_inv_def by simp
qed

lemma gen_iteration_dfs_inv:
  assumes gi: "gen_inv h w g" and inv: "dfs_inv h w g" and ne: "gstack g \<noteq> []"
    and it: "gen_iteration rs w h g = Some g'"
  shows "dfs_inv h w g'"
proof -
  have dims: "grid_dims h w (gmaze g)"
    using gi by (simp add: gen_inv_def)
  from gi it show ?thesis
  proof (cases rule: gen_iteration_cases)
    case (pop x y ds k)
    then show ?thesis
      using dfs_inv_pop [OF inv dims ne pop(1,2,3)] by simp
  next
    case (push x y ds k dx dy m1 m2)
    then show ?thesis
      using dfs_inv_push [OF inv gi ne push(1-5)] by simp
  qed
qed

lemma gen_init_dfs_inv:
  assumes "3 \<le> h" and "3 \<le> w" and o11: "cell_at maze (1, 1) = Open"
    and only: "\<forall>p. in_grid h w p \<longrightarrow> cell_at maze p = Open \<longrightarrow> p = (1, 1)"
  shows "dfs_inv h w (gen_init k maze)"
proof -
  have start: "odd_cell h w (1, 1)"
    using assms(1,2) by (simp add: odd_cell_def interior_def)
  have closed: "\<forall>p d. odd_cell h w p \<longrightarrow> cell_at maze p = Open \<longrightarrow> p \<notin> set [(1, 1)] \<longrightarrow>
      d \<in> set directions0 \<longrightarrow> odd_cell h w (step2 p d) \<longrightarrow> cell_at maze (step2 p d) = Open"
  proof (intro allI impI)
    fix p d
    assume "odd_cell h w p" "cell_at maze p = Open" "p \<notin> set [(1, 1)]"
    then show "cell_at maze (step2 p d) = Open"
      using only odd_cell_in_grid by auto
  qed
  have reach: "\<forall>p. in_grid h w p \<longrightarrow> cell_at maze p = Open \<longrightarrow> reach h w maze (1, 1) p"
    using only reach.reach_refl by blast
  show ?thesis
    unfolding dfs_inv_def gen_init_def gen_state.simps
    using start o11 closed reach by simp
qed

lemma dfs_inv_empty_all_odd:
  assumes gi: "gen_inv h w g" and di: "dfs_inv h w g" and empty: "gstack g = []"
  shows "\<forall>p. odd_cell h w p \<longrightarrow> cell_at (gmaze g) p = Open"
proof -
  have "closed_cells h w (gmaze g)"
    using di empty unfolding dfs_inv_def closed_cells_def by simp
  then show ?thesis
    using closed_all_odd gi by (auto simp: gen_inv_def)
qed

lemma generate_maze_connected:
  assumes "3 \<le> height" and "3 \<le> width" and "grid_dims height width maze"
    and "border_walls height width maze" and "cell_at maze (1, 1) = Open"
    and only: "\<forall>p. in_grid height width p \<longrightarrow> cell_at maze p = Open \<longrightarrow> p = (1, 1)"
  shows "\<exists>m. generate_maze rs k maze width height = Some (Some m) \<and>
           (\<forall>p. odd_cell height width p \<longrightarrow> cell_at m p = Open) \<and>
           (\<forall>p. in_grid height width p \<longrightarrow> cell_at m p = Open \<longrightarrow> reach height width m (1, 1) p)"
proof -
  let ?P = "\<lambda>s. \<exists>g. s = Some g \<and> gen_inv height width g \<and> dfs_inv height width g"
  obtain t where t: "while_option gen_continue (gen_body rs width height) (Some (gen_init k maze)) = Some t"
    using gen_loop_terminates [of rs width height k maze] by blast
  have "?P t"
  proof (rule while_option_rule [OF _ t])
    show "?P (Some (gen_init k maze))"
      using gen_init_inv [OF assms(1-5)] gen_init_dfs_inv [OF assms(1,2,5) only] by blast
  next
    fix s
    assume "?P s" and "gen_continue s"
    then obtain g where g: "s = Some g" "gen_inv height width g" "dfs_inv height width g" "gstack g \<noteq> []"
      by (auto simp: gen_continue_def)
    then obtain g' where "gen_iteration rs width height g = Some g'" "gen_inv height width g'"
      using gen_iteration_inv by blast
    then show "?P (gen_body rs width height s)"
      using g gen_iteration_dfs_inv [OF g(2,3,4)] by (simp add: gen_body_def)
  qed
  then obtain g where tg: "t = Some g" and gi: "gen_inv height width g" and di: "dfs_inv height width g"
    by blast
  have "\<not> gen_continue t"
    using while_option_stop [OF t] .
  then have empty: "gstack g = []"
    using tg by (simp add: gen_continue_def)
  have "\<forall>p. odd_cell height width p \<longrightarrow> cell_at (gmaze g) p = Open"
    using dfs_inv_empty_all_odd [OF gi di empty] .
  moreover have "generate_maze rs k maze width height = Some (Some (gmaze g))"
    using t tg by (simp add: generate_maze_def)
  ultimately show ?thesis
    using di unfolding dfs_inv_def by blast
qed

lemma initialize_maze_only_start:
  assumes "2 \<le> width" and "2 \<le> height" and "initialize_maze width height = Some m"
  shows "\<forall>p. in_grid height width p \<longrightarrow> cell_at m p = Open \<longrightarrow> p = (1, 1)"
proof (intro allI impI)
  fix p
  assume "in_grid height width p" "cell_at m p = Open"
  then show "p = (1, 1)"
    using assms initialize_maze_Some [of width height]
    by (cases p) (auto simp: in_grid_def cell_at_def nth_list_update split: if_splits)
qed

text \<open>
  C3. The generated maze is connected: for \<open>width, height \<ge> 3\<close> and every random
  stream, after \<open>initialize_maze\<close> and \<open>generate_maze\<close> (lines 128-129) every
  interior cell with two odd coordinates is open, and every open cell is reached from
  the start (1,1) by a walk of adjacent open cells.
\<close>

theorem initialize_generate_connected:
  assumes "3 \<le> width" and "3 \<le> height"
  shows "\<exists>m0 m. initialize_maze width height = Some m0 \<and>
           generate_maze rs k m0 width height = Some (Some m) \<and>
           (\<forall>p. odd_cell height width p \<longrightarrow> cell_at m p = Open) \<and>
           (\<forall>p. in_grid height width p \<longrightarrow> cell_at m p = Open \<longrightarrow> reach height width m (1, 1) p)"
proof -
  obtain m0 where m0: "initialize_maze width height = Some m0"
    using assms initialize_maze_Some by fastforce
  have "grid_dims height width m0 \<and> border_walls height width m0 \<and> cell_at m0 (1, 1) = Open"
    using initialize_maze_valid [OF assms m0] .
  moreover have "\<forall>p. in_grid height width p \<longrightarrow> cell_at m0 p = Open \<longrightarrow> p = (1, 1)"
    using initialize_maze_only_start [OF _ _ m0] assms by simp
  ultimately show ?thesis
    using m0 generate_maze_connected [OF assms(2,1), of m0 rs k] by blast
qed

theorem initialize_generate_connected_witness:
  "\<exists>m0 m. initialize_maze 5 5 = Some m0 \<and> generate_maze (\<lambda>_. 0) 0 m0 5 5 = Some (Some m) \<and>
     (\<forall>p. odd_cell 5 5 p \<longrightarrow> cell_at m p = Open) \<and>
     (\<forall>p. in_grid 5 5 p \<longrightarrow> cell_at m p = Open \<longrightarrow> reach 5 5 m (1, 1) p)"
  by (rule initialize_generate_connected) simp_all

subsection \<open>The generated maze is a tree\<close>

text \<open>
  A push opens a target that was a wall, so its midpoint was a wall too (an open
  passage has both ends open); the push adds one open odd cell and one open passage. A
  pop changes no cell. At the start the only open cell is (1,1).
\<close>

lemma grid_cells_distinct: "distinct (grid_cells h w)"
  by (simp add: grid_cells_def distinct_product)

lemma set_grid_cells: "set (grid_cells h w) = {q. in_grid h w q}"
  by (auto simp: grid_cells_def in_grid_def)

lemma passage_cell_ends:
  "passage_cell h w q \<Longrightarrow>
     (if even (fst q) then odd_cell h w (fst q - 1, snd q) \<and> odd_cell h w (fst q + 1, snd q)
      else odd_cell h w (fst q, snd q - 1) \<and> odd_cell h w (fst q, snd q + 1))"
  by (auto simp: passage_cell_def odd_cell_def)

lemma passage_open_mono:
  assumes "passage_cell h w q" and "passage_open m q" and "opens_more h w m m'"
  shows "passage_open m' q"
  using assms(2,3) passage_cell_ends [OF assms(1)] odd_cell_in_grid
  by (auto simp: passage_open_def opens_more_def split: if_splits)

text \<open>Opening the passage \<open>u\<close> between an open odd cell \<open>p\<close> and a walled odd cell
  \<open>t\<close>: under \<open>carve_inv\<close> the passage was a wall, and \<open>carve_inv\<close> still holds once
  both are open.\<close>

lemma carve_mid_wall:
  assumes ci: "carve_inv h w m" and u: "in_grid h w u" "\<not> odd_cell h w u"
    and po: "passage_open m u \<longleftrightarrow> cell_at m p = Open \<and> cell_at m t = Open"
    and t: "cell_at m t = Wall"
  shows "cell_at m u = Wall"
proof (rule ccontr)
  assume "cell_at m u \<noteq> Wall"
  then have "passage_open m u"
    using ci u cell_not_wall unfolding carve_inv_def by blast
  then show False
    using po t by simp
qed

lemma carve_open2:
  assumes ci: "carve_inv h w m"
    and m2: "\<And>q. in_grid h w q \<Longrightarrow> cell_at m2 q = (if q = t \<or> q = u then Open else cell_at m q)"
    and p: "in_grid h w p" "cell_at m p = Open" "p \<noteq> t" "p \<noteq> u"
    and t: "in_grid h w t" "odd_cell h w t" and pu: "passage_cell h w u"
    and po: "passage_open m2 u \<longleftrightarrow> cell_at m2 p = Open \<and> cell_at m2 t = Open"
  shows "carve_inv h w m2"
proof -
  have more: "opens_more h w m m2"
    using m2 by (simp add: opens_more_def)
  have "odd_cell h w q \<or> (passage_cell h w q \<and> passage_open m2 q)"
    if q: "in_grid h w q" "cell_at m2 q = Open" for q
  proof (cases "q = t \<or> q = u")
    case True
    then show ?thesis
      using t pu po m2 [OF p(1)] m2 [OF t(1)] p(2-4) by auto
  next
    case False
    then have "cell_at m q = Open"
      using q m2 by simp
    then show ?thesis
      using ci q(1) passage_open_mono [OF _ _ more] unfolding carve_inv_def by blast
  qed
  then show ?thesis
    unfolding carve_inv_def by blast
qed

lemma carve_inv_push:
  assumes ci: "carve_inv h w (gmaze g)"
    and stk: "\<forall>p \<in> set (gstack g). odd_cell h w p \<and> cell_at (gmaze g) p = Open"
    and gi: "gen_inv h w g"
    and ne: "gstack g \<noteq> []" and xy: "last (gstack g) = (x, y)"
    and ds: "set ds = set directions0"
    and scan: "scan_directions (gmaze g) w h (x, y) ds = Some (Some (dx, dy))"
    and s1: "grid_set (gmaze g) (x + dx div 2) (y + dy div 2) Open = Some m1"
    and s2: "grid_set m1 (x + dx) (y + dy) Open = Some m2"
  shows "carve_inv h w m2 \<and> cell_at (gmaze g) (x + dx div 2, y + dy div 2) = Wall"
proof -
  let ?m = "gmaze g" and ?t = "(x + dx, y + dy)" and ?mid = "(x + dx div 2, y + dy div 2)"
  have f: "odd_cell h w (x, y)" "cell_at ?m (x, y) = Open" "(dx, dy) \<in> set directions0"
    "odd_cell h w ?t" "cell_at ?m ?t = Wall" "interior h w ?mid"
    and cell2: "\<And>q. in_grid h w q \<Longrightarrow>
      cell_at m2 q = (if q = ?t \<or> q = ?mid then Open else cell_at ?m q)"
    using push_facts [OF stk gi ne xy ds scan s1 s2] by blast+
  have mp: "passage_cell h w ?mid" "\<not> odd_cell h w ?mid"
    "\<And>m. passage_open m ?mid \<longleftrightarrow> cell_at m (x, y) = Open \<and> cell_at m ?t = Open"
    using push_geometry [OF stk gi ne xy ds scan s1 s2] by blast+
  have "(x, y) \<noteq> ?t" "(x, y) \<noteq> ?mid"
    using f(2,5) f(1) mp(2) by auto
  then show ?thesis
    using carve_mid_wall [OF ci interior_in_grid [OF f(6)] mp(2) mp(3) f(5)]
      carve_open2 [OF ci cell2 odd_cell_in_grid [OF f(1)] f(2) _ _ odd_cell_in_grid [OF f(4)] f(4)
        mp(1) mp(3)]
    by blast
qed

lemma tree_inv_push:
  assumes ti: "tree_inv h w (gmaze g)"
    and stk: "\<forall>p \<in> set (gstack g). odd_cell h w p \<and> cell_at (gmaze g) p = Open"
    and gi: "gen_inv h w g"
    and ne: "gstack g \<noteq> []" and xy: "last (gstack g) = (x, y)"
    and ds: "set ds = set directions0"
    and scan: "scan_directions (gmaze g) w h (x, y) ds = Some (Some (dx, dy))"
    and s1: "grid_set (gmaze g) (x + dx div 2) (y + dy div 2) Open = Some m1"
    and s2: "grid_set m1 (x + dx) (y + dy) Open = Some m2"
  shows "tree_inv h w m2"
proof -
  let ?m = "gmaze g" and ?t = "(x + dx, y + dy)" and ?mid = "(x + dx div 2, y + dy div 2)"
    and ?xs = "grid_cells h w"
  have f: "odd_cell h w (x, y)" "(dx, dy) \<in> set directions0"
    "odd_cell h w ?t" "cell_at ?m ?t = Wall" "interior h w ?mid"
    and cell2: "\<And>q. in_grid h w q \<Longrightarrow>
      cell_at m2 q = (if q = ?t \<or> q = ?mid then Open else cell_at ?m q)"
    using push_facts [OF stk gi ne xy ds scan s1 s2] by blast+
  have ci: "carve_inv h w m2" and mwall: "cell_at ?m ?mid = Wall"
    using carve_inv_push [OF _ stk gi ne xy ds scan s1 s2] ti by (auto simp: tree_inv_def)
  have mp: "passage_cell h w ?mid" "\<not> odd_cell h w ?mid"
    using push_geometry [OF stk gi ne xy ds scan s1 s2] by blast+
  have tp: "\<not> passage_cell h w ?t"
    using odd_cell_not_passage [OF f(3)] .
  have mem: "?t \<in> set ?xs" "?mid \<in> set ?xs"
    using odd_cell_in_grid [OF f(3)] interior_in_grid [OF f(5)] by (simp_all add: set_grid_cells)
  have ne2: "?t \<noteq> ?mid"
    using f(3) mp(2) by metis
  have ch: "\<forall>q \<in> set ?xs. cell_at m2 q = Open \<longleftrightarrow> q = ?t \<or> q = ?mid \<or> cell_at ?m q = Open"
  proof (rule ballI)
    fix q
    assume "q \<in> set ?xs"
    then have "in_grid h w q"
      by (simp add: set_grid_cells)
    then show "cell_at m2 q = Open \<longleftrightarrow> q = ?t \<or> q = ?mid \<or> cell_at ?m q = Open"
      using cell2 by simp
  qed
  note two = length_filter_two_open [OF grid_cells_distinct mem ne2, of ?m, OF _ _ ch]
  have "open_odd_count h w m2 = open_odd_count h w ?m + 1"
    using two [of "odd_cell h w"] f(3,4) mwall mp(2) by (simp add: open_odd_count_def)
  moreover have "open_passage_count h w m2 = open_passage_count h w ?m + 1"
    using two [of "passage_cell h w"] f(4) mwall mp(1) tp by (simp add: open_passage_count_def)
  ultimately show ?thesis
    using ci ti by (simp add: tree_inv_def)
qed

lemma gen_iteration_tree_inv:
  assumes gi: "gen_inv h w g" and inv: "dfs_inv h w g" and ti: "tree_inv h w (gmaze g)"
    and ne: "gstack g \<noteq> []" and it: "gen_iteration rs w h g = Some g'"
  shows "tree_inv h w (gmaze g')"
proof -
  have stk: "\<forall>p \<in> set (gstack g). odd_cell h w p \<and> cell_at (gmaze g) p = Open"
    using inv by (simp add: dfs_inv_def)
  from gi it show ?thesis
  proof (cases rule: gen_iteration_cases)
    case (pop x y ds k)
    then show ?thesis
      using ti by simp
  next
    case (push x y ds k dx dy m1 m2)
    then show ?thesis
      using tree_inv_push [OF ti stk gi ne push(1-5)] by simp
  qed
qed

lemma initial_tree_inv:
  assumes "3 \<le> h" and "3 \<le> w" and o11: "cell_at maze (1, 1) = Open"
    and only: "\<forall>p. in_grid h w p \<longrightarrow> cell_at maze p = Open \<longrightarrow> p = (1, 1)"
  shows "tree_inv h w maze"
proof -
  have start: "odd_cell h w (1, 1)"
    using assms(1,2) by (simp add: odd_cell_def interior_def)
  have mem: "(1, 1) \<in> set (grid_cells h w)"
    using odd_cell_in_grid [OF start] by (simp add: set_grid_cells)
  have eq1: "\<forall>q \<in> set (grid_cells h w). (cell_at maze q = Open \<and> odd_cell h w q) \<longleftrightarrow> q = (1, 1)"
    using only o11 start by (auto simp: set_grid_cells)
  have eq0: "\<forall>q \<in> set (grid_cells h w). \<not> (cell_at maze q = Open \<and> passage_cell h w q)"
    using only start odd_cell_not_passage by (fastforce simp: set_grid_cells)
  have "open_odd_count h w maze = 1"
    using length_filter_single [OF grid_cells_distinct mem eq1] by (simp add: open_odd_count_def)
  moreover have "open_passage_count h w maze = 0"
    using eq0 by (simp add: open_passage_count_def filter_empty_conv)
  moreover have "carve_inv h w maze"
    using only start unfolding carve_inv_def by blast
  ultimately show ?thesis
    by (simp add: tree_inv_def)
qed

lemma generate_maze_tree:
  assumes "3 \<le> height" and "3 \<le> width" and "grid_dims height width maze"
    and "border_walls height width maze" and "cell_at maze (1, 1) = Open"
    and only: "\<forall>p. in_grid height width p \<longrightarrow> cell_at maze p = Open \<longrightarrow> p = (1, 1)"
  shows "\<exists>m. generate_maze rs k maze width height = Some (Some m) \<and> tree_inv height width m"
proof -
  let ?P = "\<lambda>s. \<exists>g. s = Some g \<and> gen_inv height width g \<and> dfs_inv height width g \<and>
                    tree_inv height width (gmaze g)"
  obtain t where t: "while_option gen_continue (gen_body rs width height) (Some (gen_init k maze)) = Some t"
    using gen_loop_terminates [of rs width height k maze] by blast
  have "?P t"
  proof (rule while_option_rule [OF _ t])
    show "?P (Some (gen_init k maze))"
      using gen_init_inv [OF assms(1-5)] gen_init_dfs_inv [OF assms(1,2,5) only]
        initial_tree_inv [OF assms(1,2,5) only] by (simp add: gen_init_def)
  next
    fix s
    assume "?P s" and "gen_continue s"
    then obtain g where g: "s = Some g" "gen_inv height width g" "dfs_inv height width g"
      "tree_inv height width (gmaze g)" "gstack g \<noteq> []"
      by (auto simp: gen_continue_def)
    then obtain g' where "gen_iteration rs width height g = Some g'" "gen_inv height width g'"
      using gen_iteration_inv by blast
    then show "?P (gen_body rs width height s)"
      using g gen_iteration_dfs_inv [OF g(2,3,5)] gen_iteration_tree_inv [OF g(2,3,4,5)]
      by (simp add: gen_body_def)
  qed
  then show ?thesis
    using t by (auto simp: generate_maze_def)
qed

text \<open>
  C4. The generated maze is a tree: for \<open>width, height \<ge> 3\<close> and every random stream,
  after \<open>initialize_maze\<close> and \<open>generate_maze\<close> every open cell is an interior
  cell with two odd coordinates or a passage between two of them, and the open odd
  cells outnumber the open passages by exactly one (with connectivity, the open cells
  form a spanning tree of the odd cells).
\<close>

theorem initialize_generate_tree:
  assumes "3 \<le> width" and "3 \<le> height"
  shows "\<exists>m0 m. initialize_maze width height = Some m0 \<and>
           generate_maze rs k m0 width height = Some (Some m) \<and>
           (\<forall>q. in_grid height width q \<longrightarrow> cell_at m q = Open \<longrightarrow>
                odd_cell height width q \<or> passage_cell height width q) \<and>
           open_odd_count height width m = open_passage_count height width m + 1"
proof -
  obtain m0 where m0: "initialize_maze width height = Some m0"
    using assms initialize_maze_Some by fastforce
  have "grid_dims height width m0 \<and> border_walls height width m0 \<and> cell_at m0 (1, 1) = Open"
    using initialize_maze_valid [OF assms m0] .
  moreover have "\<forall>p. in_grid height width p \<longrightarrow> cell_at m0 p = Open \<longrightarrow> p = (1, 1)"
    using initialize_maze_only_start [OF _ _ m0] assms by simp
  ultimately obtain m where "generate_maze rs k m0 width height = Some (Some m)"
    and "tree_inv height width m"
    using generate_maze_tree [OF assms(2,1), of m0 rs k] by blast
  then show ?thesis
    using m0 unfolding tree_inv_def carve_inv_def by blast
qed

theorem initialize_generate_tree_witness:
  "\<exists>m0 m. initialize_maze 5 5 = Some m0 \<and> generate_maze (\<lambda>_. 0) 0 m0 5 5 = Some (Some m) \<and>
     (\<forall>q. in_grid 5 5 q \<longrightarrow> cell_at m q = Open \<longrightarrow> odd_cell 5 5 q \<or> passage_cell 5 5 q) \<and>
     open_odd_count 5 5 m = open_passage_count 5 5 m + 1"
  by (rule initialize_generate_tree) simp_all

end
