(* ===== verification/Winnable.thy ===== *)
theory Winnable
  imports Game_Loop Maze_Structure
begin

text \<open>
  Liveness of the game: the player can always win. For odd \<open>width\<close> and \<open>height\<close> of
  at least 3 (the program's \<open>WIDTH, HEIGHT = 21, 21\<close>, line 6), the exit
  \<open>(height - 2, width - 2)\<close> of lines 133-134 is a cell with two odd coordinates, so
  the generated maze already has it open and reaches it from the start (theory
  \<open>Maze_Generator\<close>, connectivity). A walk of adjacent open cells is played as frames:
  one frame with a \<open>KEYDOWN\<close> event leaves the start screen, and each step is one
  frame in which only the arrow key of that step is held and more than
  \<open>move_delay\<close> milliseconds have passed since the last move (lines 164-192).
  Conversely, when both dimensions are even the exit is cut off and no input wins.
\<close>

subsection \<open>One frame per step\<close>

lemma adjacent_move:
  assumes "adjacent p r"
  shows "\<exists>d. move_player d p = r"
proof -
  obtain a b c e where p: "p = (a, b)" and r: "r = (c, e)"
    by fastforce
  have "(c = a - 1 \<and> e = b) \<or> (c = a + 1 \<and> e = b) \<or> (c = a \<and> e = b - 1) \<or> (c = a \<and> e = b + 1)"
    using assms unfolding p r adjacent_def by (simp add: abs_if split: if_splits) arith
  then show ?thesis
  proof (elim disjE conjE)
    assume "c = a - 1" "e = b"
    then have "move_player UP p = r" by (simp add: p r)
    then show ?thesis ..
  next
    assume "c = a + 1" "e = b"
    then have "move_player DOWN p = r" by (simp add: p r)
    then show ?thesis ..
  next
    assume "c = a" "e = b - 1"
    then have "move_player LEFT p = r" by (simp add: p r)
    then show ?thesis ..
  next
    assume "c = a" "e = b + 1"
    then have "move_player RIGHT p = r" by (simp add: p r)
    then show ?thesis ..
  qed
qed

lemma find_keys_only:
  "cell_at m (move_player d p) = Open \<Longrightarrow>
     find (open_target m p (keys_only d)) direction_priority = Some d"
  by (cases d) (simp_all add: open_target_def keys_only_def direction_priority_def)

lemma find_no_keys: "find (open_target m p no_keys) direction_priority = None"
  by (simp add: open_target_def direction_priority_def no_keys_def)

lemma run_frames_append:
  "run_frames g (xs @ ys) =
     (case run_frames g xs of Some (Running g') \<Rightarrow> run_frames g' ys | r \<Rightarrow> r)"
  by (induction xs arbitrary: g) (auto split: option.splits frame_result.splits)

lemma game_frame_step:
  assumes inv: "game_inv h w g" and ds: "\<not> display_start_message g"
    and adj: "adjacent (player_pos g) r" and op: "cell_at (maze g) r = Open"
  shows "\<exists>i. (\<exists>g'. game_frame g i = Some (Win_exit g')) \<or>
             (\<exists>g'. game_frame g i = Some (Running g') \<and> game_inv h w g' \<and>
                   \<not> display_start_message g' \<and> maze g' = maze g \<and> player_pos g' = r)"
proof -
  obtain d where d: "move_player d (player_pos g) = r"
    using adjacent_move [OF adj] by blast
  define i where "i = \<lparr>events = [], ticks = last_move_time g + move_delay g + 1, pressed = keys_only d\<rparr>"
  have pi: "play_inv h w g" and nw: "\<not> game_won g"
    using inv by (simp_all add: game_inv_def)
  have find: "find (open_target (maze g) (player_pos g) (keys_only d)) direction_priority = Some d"
    using find_keys_only [of "maze g" d "player_pos g"] d op by simp
  define g2 where "g2 = check_exit (g\<lparr>movement_direction := Some d, player_pos := r,
      last_move_time := ticks i, move_delay := max min_move_delay (move_delay g - acceleration_rate)\<rparr>)"
  have u: "update_movement (ticks i) (pressed i) g = Some g2"
    using update_movement_target [OF pi find, of "ticks i"] d by (simp add: i_def g2_def)
  have g0: "g\<lparr>display_start_message := False\<rparr> = g"
    using ds by simp
  have fr: "game_frame g i = Some (if game_won g2 then Win_exit g2 else Running g2)"
    using game_frame_play [of i g] ds nw u g0 by (simp add: i_def)
  obtain res where res: "game_frame g i = Some res" and ok: "frame_ok h w g res"
    using game_frame_inv [OF inv, of i] by blast
  have f2: "player_pos g2 = r \<and> maze g2 = maze g \<and> \<not> display_start_message g2"
    using ds by (simp add: g2_def check_exit_fields)
  show ?thesis
  proof (cases "game_won g2")
    case True
    then have "game_frame g i = Some (Win_exit g2)"
      using fr by simp
    then show ?thesis
      by blast
  next
    case False
    then have "res = Running g2"
      using fr res by simp
    then have "game_inv h w g2"
      using ok by (simp add: frame_ok_def)
    then show ?thesis
      using fr False f2 by auto
  qed
qed

subsection \<open>Walks and the win\<close>

lemma run_frames_walk:
  assumes "reach h w m p q"
  shows "game_inv h w g \<Longrightarrow> \<not> display_start_message g \<Longrightarrow> maze g = m \<Longrightarrow> player_pos g = p \<Longrightarrow>
    \<exists>fs. (\<exists>g'. run_frames g fs = Some (Win_exit g')) \<or>
         (\<exists>g'. run_frames g fs = Some (Running g') \<and> game_inv h w g' \<and>
               \<not> display_start_message g' \<and> maze g' = m \<and> player_pos g' = q)"
  using assms
proof (induction rule: reach.induct)
  case (reach_refl p)
  then have "run_frames g [] = Some (Running g)"
    by simp
  then show ?case
    using reach_refl.prems by blast
next
  case (reach_step p q r)
  obtain fs where "(\<exists>g'. run_frames g fs = Some (Win_exit g')) \<or>
      (\<exists>g'. run_frames g fs = Some (Running g') \<and> game_inv h w g' \<and>
            \<not> display_start_message g' \<and> maze g' = m \<and> player_pos g' = q)"
    using reach_step.IH [OF reach_step.prems] by blast
  then show ?case
  proof (elim disjE exE conjE)
    fix g'
    assume "run_frames g fs = Some (Win_exit g')"
    then show ?case
      by blast
  next
    fix g'
    assume run: "run_frames g fs = Some (Running g')" and inv': "game_inv h w g'"
      and ds': "\<not> display_start_message g'" and m': "maze g' = m" and p': "player_pos g' = q"
    obtain i where "(\<exists>g''. game_frame g' i = Some (Win_exit g'')) \<or>
        (\<exists>g''. game_frame g' i = Some (Running g'') \<and> game_inv h w g'' \<and>
              \<not> display_start_message g'' \<and> maze g'' = maze g' \<and> player_pos g'' = r)"
      using game_frame_step [OF inv' ds'] reach_step.hyps(2,4) m' p' by blast
    then have "(\<exists>g''. run_frames g (fs @ [i]) = Some (Win_exit g'')) \<or>
        (\<exists>g''. run_frames g (fs @ [i]) = Some (Running g'') \<and> game_inv h w g'' \<and>
              \<not> display_start_message g'' \<and> maze g'' = m \<and> player_pos g'' = r)"
      using run m' by (auto simp: run_frames_append)
    then show ?case
      by blast
  qed
qed

lemma run_frames_win:
  assumes inv: "game_inv h w g" and ds: "\<not> display_start_message g"
    and r: "reach h w (maze g) (player_pos g) (exit_pos g)"
  shows "\<exists>fs g'. run_frames g fs = Some (Win_exit g')"
proof -
  obtain fs where "(\<exists>g'. run_frames g fs = Some (Win_exit g')) \<or>
      (\<exists>g'. run_frames g fs = Some (Running g') \<and> game_inv h w g' \<and>
            \<not> display_start_message g' \<and> maze g' = maze g \<and> player_pos g' = exit_pos g)"
    using run_frames_walk [OF r inv ds] by blast
  then show ?thesis
  proof (elim disjE exE conjE)
    fix g'
    assume "game_inv h w g'" and "\<not> display_start_message g'" and "player_pos g' = exit_pos g"
    then have False
      using inv by (auto simp: game_inv_def)
    then show ?thesis ..
  qed blast
qed

lemma setup_game_connected:
  assumes w: "3 \<le> width" "odd width" and h: "3 \<le> height" "odd height"
  shows "\<exists>g. setup_game width height rs k t0 = Some (Some g) \<and> game_inv height width g \<and>
             display_start_message g \<and> player_pos g = (1, 1) \<and>
             reach height width (maze g) (1, 1) (exit_pos g)"
proof -
  obtain m0 where m0: "initialize_maze width height = Some m0"
    using w h initialize_maze_Some by fastforce
  have v0: "grid_dims height width m0 \<and> border_walls height width m0 \<and> cell_at m0 (1, 1) = Open"
    using initialize_maze_valid [OF w(1) h(1) m0] .
  have only: "\<forall>p. in_grid height width p \<longrightarrow> cell_at m0 p = Open \<longrightarrow> p = (1, 1)"
    using initialize_maze_only_start [OF _ _ m0] w h by simp
  obtain m where gm: "generate_maze rs k m0 width height = Some (Some m)"
    and odd: "\<forall>p. odd_cell height width p \<longrightarrow> cell_at m p = Open"
    and conn: "\<forall>p. in_grid height width p \<longrightarrow> cell_at m p = Open \<longrightarrow> reach height width m (1, 1) p"
    using generate_maze_connected [OF h(1) w(1) _ _ _ only, of rs k] v0 by blast
  obtain m' where gm': "generate_maze rs k m0 width height = Some (Some m')"
    and dims: "grid_dims height width m'"
    using generate_maze_valid [OF h(1) w(1), of m0 rs k] v0 by blast
  have mm: "m' = m"
    using gm gm' by simp
  let ?e = "(height - 2, width - 2)"
  have eo: "odd_cell height width ?e"
    using w h by (simp add: odd_cell_def interior_def)
  have eopen: "cell_at m ?e = Open"
    using odd eo by blast
  have s2: "grid_set m (height - 2) (width - 2) Open = Some m"
    using grid_set_in [OF dims [unfolded mm] odd_cell_in_grid [OF eo]]
      grid_update_same [OF eopen] by simp
  have "setup_game width height rs k t0 = Some (Some
      \<lparr>maze = m, player_pos = (1, 1), exit_pos = ?e, move_delay = initial_move_delay,
       last_move_time = t0, movement_direction = None, game_won = False,
       display_start_message = True\<rparr>)"
    using m0 gm s2 by (simp add: setup_game_def)
  moreover have "reach height width m (1, 1) ?e"
    using conn odd_cell_in_grid [OF eo] eopen by blast
  ultimately show ?thesis
    using setup_game_inv [OF w(1) h(1), of rs k t0] by auto
qed

lemma game_frame_start:
  assumes inv: "game_inv h w g"
  shows "(\<exists>g'. game_frame g \<lparr>events = [KEYDOWN], ticks = t, pressed = no_keys\<rparr> = Some (Win_exit g')) \<or>
         (\<exists>g'. game_frame g \<lparr>events = [KEYDOWN], ticks = t, pressed = no_keys\<rparr> = Some (Running g') \<and>
               game_inv h w g' \<and> \<not> display_start_message g' \<and> maze g' = maze g \<and>
               player_pos g' = player_pos g)"
proof -
  let ?i = "\<lparr>events = [KEYDOWN], ticks = t, pressed = no_keys\<rparr>"
  let ?g1 = "g\<lparr>display_start_message := False\<rparr>"
  have pi: "play_inv h w ?g1" and nw: "\<not> game_won g"
    using inv by (simp_all add: game_inv_def play_inv_def)
  define g2 where "g2 = check_exit (?g1\<lparr>movement_direction := None, move_delay := initial_move_delay\<rparr>)"
  have u: "update_movement t no_keys ?g1 = Some g2"
    using update_movement_no_target [OF pi find_no_keys] by (simp add: g2_def)
  have fr: "game_frame g ?i = Some (if game_won g2 then Win_exit g2 else Running g2)"
    using game_frame_play [of ?i g] nw u by simp
  obtain res where res: "game_frame g ?i = Some res" and ok: "frame_ok h w g res"
    using game_frame_inv [OF inv, of ?i] by blast
  have f2: "player_pos g2 = player_pos g \<and> maze g2 = maze g \<and> \<not> display_start_message g2"
    by (simp add: g2_def check_exit_fields)
  show ?thesis
  proof (cases "game_won g2")
    case True
    then have "game_frame g ?i = Some (Win_exit g2)"
      using fr by simp
    then show ?thesis
      by blast
  next
    case False
    then have "res = Running g2"
      using fr res by simp
    then have "game_inv h w g2"
      using ok by (simp add: frame_ok_def)
    then show ?thesis
      using fr False f2 by auto
  qed
qed

lemma setup_game_winnable:
  assumes "3 \<le> width" "odd width" and "3 \<le> height" "odd height"
  shows "\<exists>g. setup_game width height rs k t0 = Some (Some g) \<and>
             (\<exists>fs g'. run_frames g fs = Some (Win_exit g'))"
proof -
  obtain g where s: "setup_game width height rs k t0 = Some (Some g)"
    and inv: "game_inv height width g" and p: "player_pos g = (1, 1)"
    and r: "reach height width (maze g) (1, 1) (exit_pos g)"
    using setup_game_connected [OF assms] by blast
  let ?i = "\<lparr>events = [KEYDOWN], ticks = t0, pressed = no_keys\<rparr>"
  have "\<exists>fs g'. run_frames g fs = Some (Win_exit g')"
    using game_frame_start [OF inv, of t0]
  proof (elim disjE exE conjE)
    fix g'
    assume "game_frame g ?i = Some (Win_exit g')"
    then have "run_frames g [?i] = Some (Win_exit g')"
      by simp
    then show ?thesis
      by blast
  next
    fix g'
    assume fr: "game_frame g ?i = Some (Running g')" and inv': "game_inv height width g'"
      and ds: "\<not> display_start_message g'" and m: "maze g' = maze g" and p': "player_pos g' = player_pos g"
    have "exit_pos g' = exit_pos g"
      using inv inv' by (simp add: game_inv_def)
    then obtain fs g'' where "run_frames g' fs = Some (Win_exit g'')"
      using run_frames_win [OF inv' ds] r m p p' by auto
    then have "run_frames g (?i # fs) = Some (Win_exit g'')"
      using fr by simp
    then show ?thesis
      by blast
  qed
  then show ?thesis
    using s by blast
qed

subsection \<open>Even dimensions: the exit is walled in\<close>

text \<open>
  The code does not check that \<open>WIDTH\<close> and \<open>HEIGHT\<close> are odd (line 6 only says
  so in a comment). When both are even, the exit \<open>(height - 2, width - 2)\<close> has two
  even coordinates; its four neighbours are border cells or cells with one even
  coordinate that are not between two odd cells, and the generator leaves all of them
  walls. Every frame keeps the player on a cell reached from (1,1) through open cells
  (\<open>run_frames_reach\<close>), so the player never reaches the exit.
\<close>

lemma move_player_adjacent: "adjacent p (move_player d p)"
  by (cases d; cases p) (simp_all add: adjacent_def)

lemma even_exit_walled:
  assumes "even w" and "even h" and "4 \<le> w" and "4 \<le> h" and ci: "carve_inv h w m"
    and adj: "adjacent q (h - 2, w - 2)" and q: "in_grid h w q"
  shows "cell_at m q \<noteq> Open"
proof
  assume "cell_at m q = Open"
  then have "odd_cell h w q \<or> passage_cell h w q"
    using ci q unfolding carve_inv_def by blast
  moreover have "q = (h - 3, w - 2) \<or> q = (h - 1, w - 2) \<or> q = (h - 2, w - 3) \<or> q = (h - 2, w - 1)"
    using adjacent_cases [OF adj [unfolded adjacent_sym [of q]]] by auto
  ultimately show False
    using assms(1-4) by (auto simp: odd_cell_def passage_cell_def interior_def)
qed

lemma even_exit_unreachable:
  assumes ev: "even w" "even h" "4 \<le> w" "4 \<le> h" and ci: "carve_inv h w m"
    and m2: "\<And>q. in_grid h w q \<Longrightarrow> cell_at m2 q = (if q = (h - 2, w - 2) then Open else cell_at m q)"
  shows "\<not> reach h w m2 (1, 1) (h - 2, w - 2)"
proof -
  have "q \<noteq> (h - 2, w - 2)" if "reach h w m2 p q" and "p = (1, 1)" for p q
    using that
  proof (induction rule: reach.induct)
    case (reach_refl p)
    then show ?case
      using ev by auto
  next
    case (reach_step p q r)
    show ?case
    proof
      assume r: "r = (h - 2, w - 2)"
      have "q = (1, 1) \<or> (in_grid h w q \<and> cell_at m2 q = Open)"
        using reach_open [OF reach_step.hyps(1)] reach_step.prems by simp
      then show False
      proof
        assume "q = (1, 1)"
        then have "\<bar>1 - (h - 2)\<bar> + \<bar>1 - (w - 2)\<bar> = 1"
          using reach_step.hyps(2) r by (simp add: adjacent_def)
        then show False
          using ev by (auto simp: abs_if split: if_splits)
      next
        assume q: "in_grid h w q \<and> cell_at m2 q = Open"
        then have "cell_at m q = Open"
          using m2 [of q] reach_step.IH reach_step.prems by simp
        then show False
          using even_exit_walled [OF ev ci, of q] reach_step.hyps(2) r q by simp
      qed
    qed
  qed
  then show ?thesis
    by blast
qed

lemma update_movement_reach:
  assumes pi: "play_inv h w g" and u: "update_movement t ks g = Some g'"
    and r: "reach h w (maze g) p (player_pos g)"
  shows "reach h w (maze g') p (player_pos g')"
proof -
  have mz: "maze g' = maze g"
    using update_movement_maze [OF u] by simp
  from u show ?thesis
  proof (cases rule: update_movement_Some_cases)
    case none
    then show ?thesis
      using r by (simp add: check_exit_fields)
  next
    case (some d)
    let ?q = "move_player d (player_pos g)"
    have "in_grid h w ?q"
      using move_player_interior [OF play_inv_interior [OF pi]] .
    moreover have "grid_get (maze g) (fst ?q) (snd ?q) = Some Open"
      using select_direction_Some_Some [OF some(1)] by simp
    ultimately have "cell_at (maze g) ?q = Open"
      using grid_get_in [of h w "maze g" ?q] pi by (simp add: play_inv_def)
    then have "reach h w (maze g) p ?q"
      using reach_step [OF r move_player_adjacent] \<open>in_grid h w ?q\<close> by blast
    then show ?thesis
      using some(2) r mz by (simp add: apply_move_def check_exit_fields)
  qed
qed

lemma game_frame_reach:
  assumes inv: "game_inv h w g" and r: "reach h w (maze g) p (player_pos g)"
    and fr: "game_frame g i = Some res" and res: "res = Running g' \<or> res = Win_exit g'"
  shows "reach h w (maze g') p (player_pos g')"
proof (cases "QUIT \<in> set (events i)")
  case True
  then show ?thesis
    using fr res by (simp add: game_frame_def process_events_eq)
next
  case False
  define g1 where "g1 = g\<lparr>display_start_message := display_start_message g \<and> KEYDOWN \<notin> set (events i)\<rparr>"
  have pi1: "play_inv h w g1" and r1: "reach h w (maze g1) p (player_pos g1)"
    using inv r by (simp_all add: g1_def game_inv_def play_inv_def)
  obtain g2 where u: "(if \<not> game_won g1 \<and> \<not> display_start_message g1
                       then update_movement (ticks i) (pressed i) g1 else Some g1) = Some g2"
    and g2: "g' = g2"
    using fr res False
    by (auto simp: game_frame_def process_events_eq g1_def Let_def split: option.splits if_splits)
  show ?thesis
  proof (cases "\<not> game_won g1 \<and> \<not> display_start_message g1")
    case True
    then show ?thesis
      using update_movement_reach [OF pi1 _ r1] u g2 by simp
  next
    case False
    then have "g2 = g1"
      using u by (simp only: if_False) simp
    then show ?thesis
      using g2 r1 by simp
  qed
qed

lemma run_frames_reach:
  assumes "game_inv h w g" and "reach h w (maze g) p (player_pos g)"
    and "run_frames g fs = Some res" and "res = Running g' \<or> res = Win_exit g'"
  shows "reach h w (maze g') p (player_pos g')"
  using assms
proof (induction fs arbitrary: g)
  case Nil
  then show ?case by auto
next
  case (Cons i fs)
  obtain r0 where r0: "game_frame g i = Some r0" and ok: "frame_ok h w g r0"
    using game_frame_inv [OF Cons.prems(1)] by blast
  show ?case
  proof (cases r0)
    case (Running g1)
    then have "game_inv h w g1" and "reach h w (maze g1) p (player_pos g1)"
      using ok game_frame_reach [OF Cons.prems(1,2) r0] by (simp_all add: frame_ok_def)
    moreover have "run_frames g1 fs = Some res"
      using Cons.prems(3) r0 Running by simp
    ultimately show ?thesis
      using Cons.IH Cons.prems(4) by blast
  next
    case Quit_exit
    then show ?thesis
      using Cons.prems(3,4) r0 by simp
  next
    case (Win_exit g1)
    then have "res = r0"
      using Cons.prems(3) r0 by simp
    then show ?thesis
      using game_frame_reach [OF Cons.prems(1,2) r0] Cons.prems(4) by simp
  qed
qed

lemma setup_game_Some:
  assumes "setup_game width height rs k t0 = Some (Some g)"
  shows "\<exists>m0 m. initialize_maze width height = Some m0 \<and>
           generate_maze rs k m0 width height = Some (Some m) \<and>
           grid_set m (height - 2) (width - 2) Open = Some (maze g) \<and>
           player_pos g = (1, 1) \<and> exit_pos g = (height - 2, width - 2)"
  using assms by (auto simp: setup_game_def split: option.splits)

lemma setup_game_even_unwinnable:
  assumes ev: "even width" "even height" "4 \<le> width" "4 \<le> height"
    and s: "setup_game width height rs k t0 = Some (Some g)"
  shows "run_frames g fs \<noteq> Some (Win_exit g')"
proof
  assume run: "run_frames g fs = Some (Win_exit g')"
  have w3: "3 \<le> width" and h3: "3 \<le> height"
    using ev by simp_all
  have inv: "game_inv height width g"
    using setup_game_inv [OF w3 h3, of rs k t0] s by auto
  obtain m0 m where m0: "initialize_maze width height = Some m0"
    and gm: "generate_maze rs k m0 width height = Some (Some m)"
    and s2: "grid_set m (height - 2) (width - 2) Open = Some (maze g)"
    and pos: "player_pos g = (1, 1)" and ex: "exit_pos g = (height - 2, width - 2)"
    using setup_game_Some [OF s] by blast
  have v0: "grid_dims height width m0 \<and> border_walls height width m0 \<and> cell_at m0 (1, 1) = Open"
    using initialize_maze_valid [OF w3 h3 m0] .
  have only: "\<forall>p. in_grid height width p \<longrightarrow> cell_at m0 p = Open \<longrightarrow> p = (1, 1)"
    using initialize_maze_only_start [OF _ _ m0] w3 h3 by simp
  have ci: "carve_inv height width m"
    using generate_maze_tree [OF h3 w3 _ _ _ only, of rs k] v0 gm by (auto simp: tree_inv_def)
  have dims: "grid_dims height width m"
    using generate_maze_valid [OF h3 w3, of m0 rs k] v0 gm by auto
  let ?e = "(height - 2, width - 2)"
  have ein: "in_grid height width ?e"
    using ev by (simp add: in_grid_def)
  have mg: "maze g = m[nat (fst ?e) := (m ! nat (fst ?e))[nat (snd ?e) := Open]]"
    using s2 grid_set_in [OF dims ein] by simp
  have cells: "cell_at (maze g) q = (if q = ?e then Open else cell_at m q)" if "in_grid height width q" for q
    using cell_at_update [OF dims ein that, of Open] mg by simp
  have "reach height width (maze g') (1, 1) (player_pos g')"
    using run_frames_reach [OF inv _ run] reach.reach_refl pos by simp
  moreover have "frame_ok height width g (Win_exit g')"
    using run_frames_inv [OF inv, of fs] run by auto
  ultimately have "reach height width (maze g) (1, 1) ?e"
    using ex by (simp add: frame_ok_def)
  then show False
    using even_exit_unreachable [OF ev ci cells] by blast
qed

end
