(* ===== verification/Render.thy ===== *)
theory Render
  imports Game_Loop
begin

text \<open>
  Rendering in \<open>src/maze_game.py\<close>: the display settings and colours (lines 7-18), the
  drawing functions \<open>draw_maze\<close>, \<open>draw_player\<close>, \<open>draw_exit\<close>,
  \<open>display_text_with_shadow\<close>, \<open>display_win_message\<close> (lines 57-124) and the drawing
  part of each iteration of the main loop (lines 198-223). Every call the code makes on
  the screen is a command of the display list \<open>draw_cmd\<close>, with the arguments the code
  passes: \<open>screen.fill\<close>, \<open>pygame.draw.rect\<close> (colour, rectangle
  \<open>(x, y, w, h)\<close>, line width, corner radius; pygame's defaults are 0 and 0), a
  blit of rendered text at the centre of its rectangle, the blit of the win overlay,
  \<open>pygame.display.flip\<close>, \<open>pygame.time.wait\<close> and \<open>pygame.quit\<close>, which
  closes the window and releases the display before \<open>sys.exit()\<close>. A drawing function
  returns the commands it issues, in order.

  The screen is read through a conservative pixel semantics: a command paints a point
  with a colour, certainly leaves it alone, or may do either (rounded corners, the
  glyphs of a text, the blending of the overlay); the colour of a point after a list of
  commands is known only if no uncertain command touched it after its last certain
  painting. Pixel coordinates are \<open>x\<close> to the right and \<open>y\<close> downwards, as in
  pygame.
\<close>

subsection \<open>Display settings and commands\<close>

type_synonym color = "int \<times> int \<times> int"
type_synonym rect = "int \<times> int \<times> int \<times> int"

definition CELL_SIZE :: int where "CELL_SIZE = 20"
definition SCREEN_WIDTH :: int where "SCREEN_WIDTH = WIDTH * CELL_SIZE"
definition SCREEN_HEIGHT :: int where "SCREEN_HEIGHT = HEIGHT * CELL_SIZE"

text \<open>Line 21: \<open>pygame.display.set_mode((SCREEN_WIDTH, SCREEN_HEIGHT))\<close> opens the
  window; its pixels are the points of this rectangle, and drawing outside it is
  clipped.\<close>

definition screen :: rect where
  "screen = (0, 0, SCREEN_WIDTH, SCREEN_HEIGHT)"

definition BACKGROUND_COLOR :: color where "BACKGROUND_COLOR = (30, 30, 30)"
definition WALL_COLOR :: color where "WALL_COLOR = (50, 50, 50)"
definition PATH_COLOR :: color where "PATH_COLOR = (200, 200, 200)"
definition PLAYER_COLOR :: color where "PLAYER_COLOR = (0, 128, 255)"
definition EXIT_COLOR :: color where "EXIT_COLOR = (255, 100, 100)"
definition TEXT_COLOR :: color where "TEXT_COLOR = (255, 255, 255)"
definition SHADOW_COLOR :: color where "SHADOW_COLOR = (0, 0, 0)"

text \<open>The two fonts of lines 25-26, \<open>pygame.font.Font(None, 72)\<close> and
  \<open>pygame.font.Font(None, 28)\<close>.\<close>

datatype font = Font_large | Font_small

datatype draw_cmd =
    Fill color
  | Draw_rect color rect int int
  | Blit_text font string color "int \<times> int"
  | Blit_overlay color nat
  | Flip
  | Wait nat
  | Pygame_quit

subsection \<open>The drawing functions\<close>

text \<open>Lines 58-64: one filled cell per \<open>(y, row)\<close> and \<open>(x, cell)\<close> of
  \<open>enumerate\<close>, path colour for \<open>" "\<close> and wall colour otherwise.\<close>

definition draw_maze :: "maze \<Rightarrow> draw_cmd list" where
  "draw_maze m =
     concat (map (\<lambda>(y, row). map (\<lambda>(x, cell).
                    Draw_rect (if cell = Open then PATH_COLOR else WALL_COLOR)
                      (int x * CELL_SIZE, int y * CELL_SIZE, CELL_SIZE, CELL_SIZE) 0 0)
                  (enumerate 0 row))
       (enumerate 0 m))"

text \<open>Lines 68-82 and 86-100: the position is \<open>[row, col]\<close>, drawn at
  \<open>x = col * CELL_SIZE\<close>, \<open>y = row * CELL_SIZE\<close>, then a glow outline 2 pixels wide,
  2 pixels larger on every side.\<close>

definition draw_player :: "pos \<Rightarrow> draw_cmd list" where
  "draw_player p =
     [Draw_rect PLAYER_COLOR (snd p * CELL_SIZE, fst p * CELL_SIZE, CELL_SIZE, CELL_SIZE) 0 6,
      Draw_rect (0, 180, 255)
        (snd p * CELL_SIZE - 2, fst p * CELL_SIZE - 2, CELL_SIZE + 4, CELL_SIZE + 4) 2 8]"

definition draw_exit :: "pos \<Rightarrow> draw_cmd list" where
  "draw_exit p =
     [Draw_rect EXIT_COLOR (snd p * CELL_SIZE, fst p * CELL_SIZE, CELL_SIZE, CELL_SIZE) 0 6,
      Draw_rect (255, 150, 150)
        (snd p * CELL_SIZE - 2, fst p * CELL_SIZE - 2, CELL_SIZE + 4, CELL_SIZE + 4) 2 8]"

text \<open>Lines 104-113: the text's rectangle is centred on the screen, shifted down by
  \<open>offset_y\<close>; the shadow's rectangle is a copy moved by \<open>(4, 4)\<close> and is blitted
  first.\<close>

definition display_text_with_shadow :: "string \<Rightarrow> font \<Rightarrow> color \<Rightarrow> color \<Rightarrow> int \<Rightarrow> draw_cmd list" where
  "display_text_with_shadow message fnt color shadow_color offset_y =
     (let center = (SCREEN_WIDTH div 2, SCREEN_HEIGHT div 2 + offset_y)
      in [Blit_text fnt message shadow_color (fst center + 4, snd center + 4),
          Blit_text fnt message color center])"

text \<open>Lines 117-124: a black overlay of alpha 150 over the whole screen, then the
  message.\<close>

definition display_win_message :: "draw_cmd list" where
  "display_win_message =
     Blit_overlay (0, 0, 0) 150 #
     display_text_with_shadow ''You Win!'' Font_large (0, 255, 0) SHADOW_COLOR 0"

text \<open>
  Lines 198-223, drawn from the state the iteration has reached: clear, draw the maze,
  the exit and the player, then the start message, or the win message followed by the
  flip, the pause of 2000 ms and \<open>pygame.quit()\<close> before the program exits (lines
  217-221), and the flip of line 223.
\<close>

definition render_frame :: "game \<Rightarrow> draw_cmd list" where
  "render_frame g =
     Fill BACKGROUND_COLOR # draw_maze (maze g) @ draw_exit (exit_pos g) @
     draw_player (player_pos g) @
     (if display_start_message g
      then display_text_with_shadow ''Press any key to start'' Font_small TEXT_COLOR SHADOW_COLOR (-40) @
           display_text_with_shadow ''Navigate to the red square to win'' Font_small TEXT_COLOR
             SHADOW_COLOR 0 @ [Flip]
      else if game_won g then display_win_message @ [Flip, Wait 2000, Pygame_quit]
      else [Flip])"

text \<open>What a frame puts on the screen: a \<open>QUIT\<close> event releases the display and exits
  before any drawing (lines 152-154).\<close>

fun frame_display :: "frame_result \<Rightarrow> draw_cmd list" where
  "frame_display (Running g) = render_frame g"
| "frame_display (Win_exit g) = render_frame g"
| "frame_display Quit_exit = [Pygame_quit]"

subsection \<open>Pixel semantics\<close>

datatype paint = Paint color | No_paint | Unknown_paint

text \<open>\<open>in_box (x, y, w, h) d q\<close>: the point \<open>q\<close> lies in the rectangle shrunk by
  \<open>d\<close> on every side.\<close>

definition in_box :: "rect \<Rightarrow> int \<Rightarrow> int \<times> int \<Rightarrow> bool" where
  "in_box r d q \<longleftrightarrow>
     (case r of (x, y, w, h) \<Rightarrow>
        x + d \<le> fst q \<and> fst q < x + w - d \<and> y + d \<le> snd q \<and> snd q < y + h - d)"

text \<open>A filled rectangle (width 0) certainly paints the points at least its corner
  radius away from its border; an outline of width \<open>k\<close> certainly leaves alone the
  points at least \<open>k\<close> and at least its corner radius inside its border (near a
  rounded corner the band of the outline bends inwards, up to the radius); neither
  touches a point outside its rectangle. Text and the overlay may touch any point.\<close>

fun cmd_paint :: "draw_cmd \<Rightarrow> int \<times> int \<Rightarrow> paint" where
  "cmd_paint (Fill c) q = Paint c"
| "cmd_paint (Draw_rect c r k rad) q =
     (if \<not> in_box r 0 q then No_paint
      else if k = 0 then (if in_box r rad q then Paint c else Unknown_paint)
      else if 0 < k \<and> in_box r (max k rad) q then No_paint
      else Unknown_paint)"
| "cmd_paint (Blit_text f s c ctr) q = Unknown_paint"
| "cmd_paint (Blit_overlay c a) q = Unknown_paint"
| "cmd_paint Flip q = No_paint"
| "cmd_paint (Wait n) q = No_paint"
| "cmd_paint Pygame_quit q = No_paint"

definition screen_color :: "draw_cmd list \<Rightarrow> int \<times> int \<Rightarrow> color option" where
  "screen_color cmds q =
     foldl (\<lambda>s c. case cmd_paint c q of Paint col \<Rightarrow> Some col | No_paint \<Rightarrow> s | Unknown_paint \<Rightarrow> None)
       None cmds"

text \<open>The centre of the square of cell \<open>(row, col)\<close>.\<close>

definition cell_centre :: "pos \<Rightarrow> int \<times> int" where
  "cell_centre p = (snd p * CELL_SIZE + CELL_SIZE div 2, fst p * CELL_SIZE + CELL_SIZE div 2)"

text \<open>The cell whose square holds the pixel \<open>q\<close>.\<close>

definition pixel_cell :: "int \<times> int \<Rightarrow> pos" where
  "pixel_cell q = (snd q div CELL_SIZE, fst q div CELL_SIZE)"

definition cell_color :: "cell \<Rightarrow> color" where
  "cell_color c = (if c = Open then PATH_COLOR else WALL_COLOR)"

text \<open>Reading a maze back from the screen: a cell is a wall when its centre shows the
  wall colour.\<close>

definition decode_maze :: "nat \<Rightarrow> nat \<Rightarrow> draw_cmd list \<Rightarrow> maze" where
  "decode_maze h w cmds =
     map (\<lambda>r. map (\<lambda>c. if screen_color cmds (cell_centre (int r, int c)) = Some WALL_COLOR
                      then Wall else Open) [0..<w]) [0..<h]"

subsection \<open>The screen after a list of commands\<close>

lemma screen_color_snoc:
  "screen_color (xs @ [c]) q =
     (case cmd_paint c q of Paint col \<Rightarrow> Some col | No_paint \<Rightarrow> screen_color xs q | Unknown_paint \<Rightarrow> None)"
  unfolding screen_color_def by simp

lemma screen_color_no_paint:
  "\<forall>c \<in> set ys. cmd_paint c q = No_paint \<Longrightarrow> screen_color (xs @ ys) q = screen_color xs q"
proof (induction ys rule: rev_induct)
  case Nil
  then show ?case by simp
next
  case (snoc c ys)
  then show ?case
    using screen_color_snoc [of "xs @ ys" c q] by simp
qed

lemma screen_color_paints:
  "\<forall>c \<in> set ys. cmd_paint c q = No_paint \<or> cmd_paint c q = Paint col \<Longrightarrow>
   \<exists>c \<in> set ys. cmd_paint c q = Paint col \<Longrightarrow> screen_color (xs @ ys) q = Some col"
proof (induction ys rule: rev_induct)
  case Nil
  then show ?case by simp
next
  case (snoc c ys)
  show ?case
  proof (cases "cmd_paint c q = Paint col")
    case True
    then show ?thesis
      using screen_color_snoc [of "xs @ ys" c q] by simp
  next
    case False
    then have "cmd_paint c q = No_paint" and "\<exists>c \<in> set ys. cmd_paint c q = Paint col"
      using snoc.prems by auto
    then show ?thesis
      using snoc.IH snoc.prems screen_color_snoc [of "xs @ ys" c q] by simp
  qed
qed

subsection \<open>Geometry of the cells\<close>

lemma cell_axis:
  fixes b e d :: int
  assumes "-2 \<le> d" and "d < 10"
  shows "b * 20 + d \<le> e * 20 + 10 \<and> e * 20 + 10 < b * 20 + 20 - d \<longleftrightarrow> b = e"
proof
  assume h: "b * 20 + d \<le> e * 20 + 10 \<and> e * 20 + 10 < b * 20 + 20 - d"
  show "b = e"
  proof (rule ccontr)
    assume "b \<noteq> e"
    then have "b + 1 \<le> e \<or> e + 1 \<le> b"
      by linarith
    then show False
      using h assms by linarith
  qed
qed (use assms in simp)

lemma in_box_cell:
  assumes "-2 \<le> d" and "d < 10"
  shows "in_box (snd p * CELL_SIZE - s, fst p * CELL_SIZE - s, CELL_SIZE + 2 * s, CELL_SIZE + 2 * s) (d + s)
           (cell_centre q) \<longleftrightarrow> q = p"
  using cell_axis [OF assms, of "snd p" "snd q"] cell_axis [OF assms, of "fst p" "fst q"]
  by (cases p; cases q) (auto simp: in_box_def cell_centre_def CELL_SIZE_def algebra_simps)

lemma cell_rect_paint:
  assumes "0 \<le> rad" and "rad < 10"
  shows "cmd_paint (Draw_rect col (snd p * CELL_SIZE, fst p * CELL_SIZE, CELL_SIZE, CELL_SIZE) 0 rad)
           (cell_centre q) = (if q = p then Paint col else No_paint)"
  using in_box_cell [where d = rad and s = 0 and p = p and q = q]
    in_box_cell [where d = 0 and s = 0 and p = p and q = q]
    in_box_cell [where d = rad and s = 0 and p = p and q = p] assms
  by (cases "q = p") simp_all

lemma glow_no_paint:
  "cmd_paint (Draw_rect col (snd p * CELL_SIZE - 2, fst p * CELL_SIZE - 2, CELL_SIZE + 4, CELL_SIZE + 4) 2 8)
     (cell_centre q) = No_paint"
  using in_box_cell [where d = "-2" and s = 2 and p = p and q = q]
    in_box_cell [where d = 6 and s = 2 and p = p and q = q]
  by (cases "q = p") simp_all

lemma axis_div:
  fixes b e :: int
  shows "b * 20 \<le> e \<and> e < b * 20 + 20 \<longleftrightarrow> b = e div 20"
proof
  assume h: "b * 20 \<le> e \<and> e < b * 20 + 20"
  have "(e - b * 20) div 20 = 0"
    using h by (intro div_pos_pos_trivial) simp_all
  moreover have "e div 20 = (e - b * 20 + b * 20) div 20"
    by simp
  ultimately show "b = e div 20"
    by (simp only: div_mult_self4 [of 20 b "e - b * 20", simplified])
next
  assume "b = e div 20"
  then show "b * 20 \<le> e \<and> e < b * 20 + 20"
    using div_mult_mod_eq [of e 20] pos_mod_bound [of 20 e] pos_mod_sign [of 20 e] by linarith
qed

lemma pixel_cell_centre: "pixel_cell (cell_centre q) = q"
proof -
  have "(a * 20 + 10) div 20 = a" for a :: int
    using axis_div [of a "a * 20 + 10"] by simp
  then show ?thesis
    by (cases q) (simp add: pixel_cell_def cell_centre_def CELL_SIZE_def)
qed

lemma rect_paint_pixel:
  "cmd_paint (Draw_rect col (int x * CELL_SIZE, int y * CELL_SIZE, CELL_SIZE, CELL_SIZE) 0 0) q =
     (if pixel_cell q = (int y, int x) then Paint col else No_paint)"
  using axis_div [of "int x" "fst q"] axis_div [of "int y" "snd q"]
  by (cases q) (auto simp: in_box_def pixel_cell_def CELL_SIZE_def)

subsection \<open>The picture of the maze\<close>

lemma set_draw_maze:
  "c \<in> set (draw_maze m) \<longleftrightarrow>
     (\<exists>y < length m. \<exists>x < length (m ! y).
        c = Draw_rect (cell_color (m ! y ! x)) (int x * CELL_SIZE, int y * CELL_SIZE, CELL_SIZE, CELL_SIZE) 0 0)"
proof
  assume "c \<in> set (draw_maze m)"
  then obtain y row x cell where yr: "(y, row) \<in> set (enumerate 0 m)" and xc: "(x, cell) \<in> set (enumerate 0 row)"
    and c: "c = Draw_rect (if cell = Open then PATH_COLOR else WALL_COLOR)
                 (int x * CELL_SIZE, int y * CELL_SIZE, CELL_SIZE, CELL_SIZE) 0 0"
    unfolding draw_maze_def by auto
  then show "\<exists>y < length m. \<exists>x < length (m ! y).
        c = Draw_rect (cell_color (m ! y ! x)) (int x * CELL_SIZE, int y * CELL_SIZE, CELL_SIZE, CELL_SIZE) 0 0"
    by (auto simp: in_set_enumerate_eq cell_color_def)
next
  assume "\<exists>y < length m. \<exists>x < length (m ! y).
        c = Draw_rect (cell_color (m ! y ! x)) (int x * CELL_SIZE, int y * CELL_SIZE, CELL_SIZE, CELL_SIZE) 0 0"
  then obtain y x where y: "y < length m" and x: "x < length (m ! y)"
    and c: "c = Draw_rect (cell_color (m ! y ! x)) (int x * CELL_SIZE, int y * CELL_SIZE, CELL_SIZE, CELL_SIZE) 0 0"
    by blast
  have "(y, m ! y) \<in> set (enumerate 0 m)" and "(x, m ! y ! x) \<in> set (enumerate 0 (m ! y))"
    using x y by (simp_all add: in_set_enumerate_eq)
  then show "c \<in> set (draw_maze m)"
    unfolding draw_maze_def c cell_color_def by force
qed

lemma draw_maze_pixel:
  assumes dims: "grid_dims h w m" and q: "in_grid h w (pixel_cell q)"
  shows "screen_color (xs @ draw_maze m) q = Some (cell_color (cell_at m (pixel_cell q)))"
proof (rule screen_color_paints)
  show "\<forall>c \<in> set (draw_maze m). cmd_paint c q = No_paint \<or>
          cmd_paint c q = Paint (cell_color (cell_at m (pixel_cell q)))"
  proof
    fix c
    assume "c \<in> set (draw_maze m)"
    then obtain y x where c: "c = Draw_rect (cell_color (m ! y ! x))
        (int x * CELL_SIZE, int y * CELL_SIZE, CELL_SIZE, CELL_SIZE) 0 0"
      unfolding set_draw_maze by blast
    show "cmd_paint c q = No_paint \<or> cmd_paint c q = Paint (cell_color (cell_at m (pixel_cell q)))"
      using c rect_paint_pixel [of "cell_color (m ! y ! x)" x y q] by (auto simp: cell_at_def)
  qed
  let ?y = "nat (fst (pixel_cell q))" and ?x = "nat (snd (pixel_cell q))"
  have yx: "?y < length m" "?x < length (m ! ?y)" and qyx: "pixel_cell q = (int ?y, int ?x)"
    using q grid_dims_length [OF dims] grid_dims_nth [OF dims] by (auto simp: in_grid_def)
  show "\<exists>c \<in> set (draw_maze m). cmd_paint c q = Paint (cell_color (cell_at m (pixel_cell q)))"
  proof
    let ?c = "Draw_rect (cell_color (m ! ?y ! ?x)) (int ?x * CELL_SIZE, int ?y * CELL_SIZE, CELL_SIZE, CELL_SIZE) 0 0"
    show "?c \<in> set (draw_maze m)"
      using yx unfolding set_draw_maze by blast
    show "cmd_paint ?c q = Paint (cell_color (cell_at m (pixel_cell q)))"
      using rect_paint_pixel [of "cell_color (m ! ?y ! ?x)" ?x ?y q] qyx by (simp add: cell_at_def)
  qed
qed

lemma draw_maze_screen:
  assumes dims: "grid_dims h w m" and q: "in_grid h w q"
  shows "screen_color (xs @ draw_maze m) (cell_centre q) = Some (cell_color (cell_at m q))"
  using draw_maze_pixel [of h w m "cell_centre q" xs] assms by (simp add: pixel_cell_centre)

lemma screen_color_draw_player:
  "screen_color (xs @ draw_player p) (cell_centre q) =
     (if q = p then Some PLAYER_COLOR else screen_color xs (cell_centre q))"
  using screen_color_snoc [of "xs @ [hd (draw_player p)]" "last (draw_player p)" "cell_centre q"]
    screen_color_snoc [of xs "hd (draw_player p)" "cell_centre q"]
    cell_rect_paint [of 6 PLAYER_COLOR p q] glow_no_paint [of "(0, 180, 255)" p q]
  by (simp add: draw_player_def)

lemma screen_color_draw_exit:
  "screen_color (xs @ draw_exit p) (cell_centre q) =
     (if q = p then Some EXIT_COLOR else screen_color xs (cell_centre q))"
  using screen_color_snoc [of "xs @ [hd (draw_exit p)]" "last (draw_exit p)" "cell_centre q"]
    screen_color_snoc [of xs "hd (draw_exit p)" "cell_centre q"]
    cell_rect_paint [of 6 EXIT_COLOR p q] glow_no_paint [of "(255, 150, 150)" p q]
  by (simp add: draw_exit_def)

lemma cell_color_wall: "cell_color c = WALL_COLOR \<longleftrightarrow> c = Wall"
  by (cases c) (simp_all add: cell_color_def PATH_COLOR_def WALL_COLOR_def)

text \<open>
  C16. Round trip of the maze picture: \<open>draw_maze\<close> on a cleared screen puts every cell
  at its own square, \<open>x\<close> from the column and \<open>y\<close> from the row, in the colour of
  its kind, so reading the centre of every square back gives the maze that was drawn.
\<close>

theorem draw_maze_decode:
  assumes "grid_dims h w m"
  shows "decode_maze (nat h) (nat w) (Fill BACKGROUND_COLOR # draw_maze m) = m"
proof (rule nth_equalityI)
  show "length (decode_maze (nat h) (nat w) (Fill BACKGROUND_COLOR # draw_maze m)) = length m"
    using grid_dims_length [OF assms] by (simp add: decode_maze_def)
next
  fix r
  assume "r < length (decode_maze (nat h) (nat w) (Fill BACKGROUND_COLOR # draw_maze m))"
  then have r: "r < nat h"
    by (simp add: decode_maze_def)
  have row: "length (m ! r) = nat w"
    using grid_dims_nth [OF assms] grid_dims_length [OF assms] r by simp
  have "decode_maze (nat h) (nat w) (Fill BACKGROUND_COLOR # draw_maze m) ! r ! c = m ! r ! c"
    if c: "c < nat w" for c
  proof -
    have "in_grid h w (int r, int c)"
      using r c by (simp add: in_grid_def zless_nat_eq_int_zless)
    then have "screen_color ([Fill BACKGROUND_COLOR] @ draw_maze m) (cell_centre (int r, int c)) =
        Some (cell_color (cell_at m (int r, int c)))"
      by (rule draw_maze_screen [OF assms])
    then have "screen_color (Fill BACKGROUND_COLOR # draw_maze m) (cell_centre (int r, int c)) =
        Some (cell_color (m ! r ! c))"
      by (simp add: cell_at_def)
    then show ?thesis
      using r c cell_color_wall [of "m ! r ! c"] by (cases "m ! r ! c") (simp_all add: decode_maze_def)
  qed
  then show "decode_maze (nat h) (nat w) (Fill BACKGROUND_COLOR # draw_maze m) ! r = m ! r"
    using r row by (intro nth_equalityI) (simp_all add: decode_maze_def)
qed

lemma pixel_cell_in_grid:
  assumes "in_box (0, 0, w * CELL_SIZE, h * CELL_SIZE) 0 q"
  shows "in_grid h w (pixel_cell q)"
proof -
  obtain a b where q: "q = (a, b)"
    by fastforce
  have "a div 20 * 20 \<le> a \<and> a < a div 20 * 20 + 20" and "b div 20 * 20 \<le> b \<and> b < b div 20 * 20 + 20"
    using axis_div by blast+
  moreover have "0 \<le> a" "a < w * 20" "0 \<le> b" "b < h * 20"
    using assms by (simp_all add: q in_box_def CELL_SIZE_def)
  ultimately have "0 \<le> b div 20 \<and> b div 20 < h \<and> 0 \<le> a div 20 \<and> a div 20 < w"
    by linarith
  then show ?thesis
    by (simp add: q in_grid_def pixel_cell_def CELL_SIZE_def)
qed

text \<open>
  C17. The maze picture tiles the window exactly: on the program's \<open>HEIGHT \<times> WIDTH\<close>
  maze, every pixel of the window opened at line 21 shows, after \<open>screen.fill\<close> and
  \<open>draw_maze\<close>, the colour of the cell whose square holds it (no strip of background
  is left), and no square of \<open>draw_maze\<close> reaches outside the window.
\<close>

theorem draw_maze_tiles_screen:
  assumes dims: "grid_dims HEIGHT WIDTH m"
  shows "(\<forall>q. in_box screen 0 q \<longrightarrow>
            screen_color (Fill BACKGROUND_COLOR # draw_maze m) q = Some (cell_color (cell_at m (pixel_cell q)))) \<and>
         (\<forall>c \<in> set (draw_maze m). \<forall>col r k rad q.
            c = Draw_rect col r k rad \<longrightarrow> in_box r 0 q \<longrightarrow> in_box screen 0 q)"
proof (intro conjI allI impI ballI)
  fix q
  assume "in_box screen 0 q"
  then have "in_grid HEIGHT WIDTH (pixel_cell q)"
    by (intro pixel_cell_in_grid) (simp add: screen_def SCREEN_WIDTH_def SCREEN_HEIGHT_def)
  then show "screen_color (Fill BACKGROUND_COLOR # draw_maze m) q = Some (cell_color (cell_at m (pixel_cell q)))"
    using draw_maze_pixel [OF dims, of q "[Fill BACKGROUND_COLOR]"] by simp
next
  fix c col r k rad q
  assume "c \<in> set (draw_maze m)" and "c = Draw_rect col r k rad" and q: "in_box r 0 q"
  then obtain y x where "y < length m" and "x < length (m ! y)"
    and r: "r = (int x * CELL_SIZE, int y * CELL_SIZE, CELL_SIZE, CELL_SIZE)"
    unfolding set_draw_maze by blast
  then have "int y < HEIGHT" and "int x < WIDTH"
    using grid_dims_length [OF dims] grid_dims_nth [OF dims] by (simp_all add: HEIGHT_def WIDTH_def)
  then show "in_box screen 0 q"
    using q r by (cases q) (simp add: in_box_def screen_def SCREEN_WIDTH_def SCREEN_HEIGHT_def CELL_SIZE_def)
qed

text \<open>
  C15. What a frame of play shows: while the game is played (no start message, not won),
  the frame drawn by lines 199-223 shows the player's colour at the centre of the
  player's cell, the exit's colour at the exit's cell when the player is elsewhere,
  and at every other cell of the grid the colour of that cell of the maze. The row and
  column of a position are not swapped anywhere.
\<close>

theorem render_frame_play:
  assumes "grid_dims h w (maze g)" and "\<not> display_start_message g" and "\<not> game_won g"
    and "in_grid h w q"
  shows "screen_color (render_frame g) (cell_centre q) =
           Some (if q = player_pos g then PLAYER_COLOR
                 else if q = exit_pos g then EXIT_COLOR
                 else cell_color (cell_at (maze g) q))"
proof -
  let ?A = "[Fill BACKGROUND_COLOR] @ draw_maze (maze g)" and ?q = "cell_centre q"
  have ex: "screen_color (?A @ draw_exit (exit_pos g)) ?q =
      (if q = exit_pos g then Some EXIT_COLOR else screen_color ?A ?q)"
    by (rule screen_color_draw_exit)
  have mz: "screen_color ?A ?q = Some (cell_color (cell_at (maze g) q))"
    by (rule draw_maze_screen [OF assms(1,4)])
  have "screen_color (render_frame g) ?q =
      screen_color (((?A @ draw_exit (exit_pos g)) @ draw_player (player_pos g)) @ [Flip]) ?q"
    using assms(2,3) by (simp add: render_frame_def)
  also have "\<dots> = screen_color ((?A @ draw_exit (exit_pos g)) @ draw_player (player_pos g)) ?q"
    by (rule screen_color_no_paint) simp
  also have "\<dots> = (if q = player_pos g then Some PLAYER_COLOR
                   else screen_color (?A @ draw_exit (exit_pos g)) ?q)"
    by (rule screen_color_draw_player)
  finally show ?thesis
    using ex mz by simp
qed

lemma game_frame_result_flags:
  assumes "game_frame g i = Some r"
  shows "(\<forall>g'. r = Win_exit g' \<longrightarrow> game_won g' \<and> \<not> display_start_message g') \<and>
         (\<forall>g'. r = Running g' \<longrightarrow> display_start_message g' \<or> \<not> game_won g')"
  using assms
  by (auto simp: game_frame_def process_events_eq Let_def split: option.splits if_splits)

lemma no_wait_drawing:
  "Wait n \<notin> set (draw_maze m) \<and> Wait n \<notin> set (draw_exit p) \<and> Wait n \<notin> set (draw_player p) \<and>
   Wait n \<notin> set (display_text_with_shadow s f c c' y) \<and> Wait n \<notin> set display_win_message"
  by (auto simp: set_draw_maze draw_exit_def draw_player_def display_text_with_shadow_def
      display_win_message_def Let_def)

lemma no_quit_drawing:
  "Pygame_quit \<notin> set (draw_maze m) \<and> Pygame_quit \<notin> set (draw_exit p) \<and>
   Pygame_quit \<notin> set (draw_player p) \<and> Pygame_quit \<notin> set (display_text_with_shadow s f c c' y) \<and>
   Pygame_quit \<notin> set display_win_message"
  by (auto simp: set_draw_maze draw_exit_def draw_player_def display_text_with_shadow_def
      display_win_message_def Let_def)

text \<open>
  C18. The only pause is the terminal one: a frame puts a \<open>pygame.time.wait\<close> on its
  display list exactly when it ends the program with the win message, and then it is a
  wait of 2000 ms right after the win message is flipped onto the screen and right before
  the display is released. Every other frame, a quitting one included, runs without
  blocking.
\<close>

theorem frame_display_wait:
  assumes "game_frame g i = Some r"
  shows "(\<forall>n. Wait n \<in> set (frame_display r) \<longleftrightarrow> (\<exists>g'. r = Win_exit g') \<and> n = 2000) \<and>
         (\<forall>g'. r = Win_exit g' \<longrightarrow>
            (\<exists>pre. frame_display r = pre @ display_win_message @ [Flip, Wait 2000, Pygame_quit]))"
proof (cases r)
  case (Running g')
  then have "display_start_message g' \<or> \<not> game_won g'"
    using game_frame_result_flags [OF assms] by blast
  then show ?thesis
    using Running no_wait_drawing by (auto simp: render_frame_def)
next
  case Quit_exit
  then show ?thesis by simp
next
  case (Win_exit g')
  then have "game_won g' \<and> \<not> display_start_message g'"
    using game_frame_result_flags [OF assms] by blast
  then show ?thesis
    using Win_exit no_wait_drawing by (auto simp: render_frame_def)
qed

text \<open>
  C19. The display is released on both exit paths and only there: a frame calls
  \<open>pygame.quit()\<close> exactly when it ends the program, on a \<open>QUIT\<close> event (before
  drawing anything) or after the pause of the win message, and then as its last command,
  once; a frame after which the loop goes on never releases it.
\<close>

theorem frame_display_quit:
  assumes "game_frame g i = Some r"
  shows "(Pygame_quit \<in> set (frame_display r) \<longleftrightarrow> r = Quit_exit \<or> (\<exists>g'. r = Win_exit g')) \<and>
         (Pygame_quit \<in> set (frame_display r) \<longrightarrow>
            (\<exists>pre. frame_display r = pre @ [Pygame_quit] \<and> Pygame_quit \<notin> set pre))"
proof (cases r)
  case (Running g')
  then have "display_start_message g' \<or> \<not> game_won g'"
    using game_frame_result_flags [OF assms] by blast
  then show ?thesis
    using Running no_quit_drawing by (auto simp: render_frame_def)
next
  case Quit_exit
  then show ?thesis by simp
next
  case (Win_exit g')
  then have "game_won g' \<and> \<not> display_start_message g'"
    using game_frame_result_flags [OF assms] by blast
  then show ?thesis
    using Win_exit no_quit_drawing by (auto simp: render_frame_def)
qed

subsection \<open>Witnesses\<close>

lemma demo_maze_dims: "grid_dims 5 5 demo_maze"
  by (simp add: grid_dims_def demo_maze_def)

theorem draw_maze_decode_witness:
  "decode_maze 5 5 (Fill BACKGROUND_COLOR # draw_maze demo_maze) = demo_maze"
  using draw_maze_decode [OF demo_maze_dims] by simp

theorem render_frame_play_witness:
  "screen_color (render_frame demo_game) (cell_centre (1, 1)) = Some PLAYER_COLOR \<and>
   screen_color (render_frame demo_game) (cell_centre (3, 3)) = Some EXIT_COLOR \<and>
   screen_color (render_frame demo_game) (cell_centre (1, 2)) = Some WALL_COLOR"
proof -
  have d: "grid_dims 5 5 (maze demo_game)" "\<not> display_start_message demo_game" "\<not> game_won demo_game"
    using demo_maze_dims by (simp_all add: demo_game_def)
  show ?thesis
    using render_frame_play [OF d, of "(1, 1)"] render_frame_play [OF d, of "(3, 3)"]
      render_frame_play [OF d, of "(1, 2)"]
    by (simp add: in_grid_def demo_game_def demo_maze_def cell_at_def cell_color_def)
qed

theorem frame_display_wait_witness:
  "game_frame (demo_game\<lparr>player_pos := (3, 2)\<rparr>) (frame_at 300 (keys_only RIGHT)) =
     Some (Win_exit (demo_game\<lparr>player_pos := (3, 3), last_move_time := 300, move_delay := 110,
                               movement_direction := Some RIGHT, game_won := True\<rparr>)) \<and>
   Wait 2000 \<in> set (frame_display (Win_exit (demo_game\<lparr>player_pos := (3, 3), last_move_time := 300,
      move_delay := 110, movement_direction := Some RIGHT, game_won := True\<rparr>)))"
proof -
  have fr: "game_frame (demo_game\<lparr>player_pos := (3, 2)\<rparr>) (frame_at 300 (keys_only RIGHT)) =
     Some (Win_exit (demo_game\<lparr>player_pos := (3, 3), last_move_time := 300, move_delay := 110,
                               movement_direction := Some RIGHT, game_won := True\<rparr>))"
    using game_frame_play [of "frame_at 300 (keys_only RIGHT)" "demo_game\<lparr>player_pos := (3, 2)\<rparr>"]
      demo_reach_exit by (simp add: frame_at_def demo_game_def)
  show ?thesis
    using fr frame_display_wait [OF fr] by blast
qed

theorem draw_maze_tiles_screen_witness:
  "grid_dims HEIGHT WIDTH (replicate 21 (replicate 21 Wall)) \<and>
   screen_color (Fill BACKGROUND_COLOR # draw_maze (replicate 21 (replicate 21 Wall))) (419, 419) =
     Some WALL_COLOR"
proof -
  have dims: "grid_dims HEIGHT WIDTH (replicate 21 (replicate 21 Wall))"
    by (simp add: grid_dims_def list_all_iff HEIGHT_def WIDTH_def)
  have "in_box screen 0 (419, 419)"
    by (simp add: in_box_def screen_def SCREEN_WIDTH_def SCREEN_HEIGHT_def WIDTH_def HEIGHT_def CELL_SIZE_def)
  then show ?thesis
    using dims draw_maze_tiles_screen [OF dims]
    by (simp add: pixel_cell_def cell_at_def CELL_SIZE_def cell_color_def)
qed

theorem frame_display_quit_witness:
  "game_frame demo_game \<lparr>events = [KEYDOWN, QUIT], ticks = 0, pressed = no_keys\<rparr> = Some Quit_exit \<and>
   (\<exists>pre. frame_display Quit_exit = pre @ [Pygame_quit] \<and> Pygame_quit \<notin> set pre)"
proof -
  have fr: "game_frame demo_game \<lparr>events = [KEYDOWN, QUIT], ticks = 0, pressed = no_keys\<rparr> = Some Quit_exit"
    by (simp add: game_frame_def process_events_eq)
  show ?thesis
    using fr frame_display_quit [OF fr] by simp
qed

end
