(* ===== verification/Generator_Steps.thy ===== *)
theory Generator_Steps
  imports Maze_Structure Game_Loop
begin

text \<open>
  How many iterations the \<open>while stack:\<close> loop of \<open>generate_maze\<close> (lines 41-52)
  runs. Every odd cell is pushed exactly once and popped exactly once, so from the grid of
  \<open>initialize_maze\<close> the loop runs exactly \<open>2 N - 1\<close> iterations, \<open>N\<close> the number of
  odd cells (100 for the program's 21 by 21 grid). The potential \<open>gen_pot\<close>, twice
  the number of odd cells still walls plus the stack's length, drops by exactly one in
  every iteration, and it is zero exactly when the stack is empty.
\<close>

subsection \<open>Definitions\<close>

definition odd_cell_count :: "int \<Rightarrow> int \<Rightarrow> nat" where
  "odd_cell_count h w = length (filter (odd_cell h w) (grid_cells h w))"

definition closed_odd_count :: "int \<Rightarrow> int \<Rightarrow> maze \<Rightarrow> nat" where
  "closed_odd_count h w m = length (filter (\<lambda>q. cell_at m q = Wall \<and> odd_cell h w q) (grid_cells h w))"

definition gen_pot :: "int \<Rightarrow> int \<Rightarrow> gen_state \<Rightarrow> nat" where
  "gen_pot h w g = 2 * closed_odd_count h w (gmaze g) + length (gstack g)"

subsection \<open>The potential of one iteration\<close>

lemma closed_odd_count_push:
  assumes stk: "\<forall>p \<in> set (gstack g). odd_cell h w p \<and> cell_at (gmaze g) p = Open"
    and gi: "gen_inv h w g"
    and ne: "gstack g \<noteq> []" and xy: "last (gstack g) = (x, y)"
    and ds: "set ds = set directions0"
    and scan: "scan_directions (gmaze g) w h (x, y) ds = Some (Some (dx, dy))"
    and s1: "grid_set (gmaze g) (x + dx div 2) (y + dy div 2) Open = Some m1"
    and s2: "grid_set m1 (x + dx) (y + dy) Open = Some m2"
  shows "closed_odd_count h w m2 + 1 = closed_odd_count h w (gmaze g)"
proof -
  let ?m = "gmaze g" and ?t = "(x + dx, y + dy)" and ?mid = "(x + dx div 2, y + dy div 2)"
  have f: "odd_cell h w (x, y)" "(dx, dy) \<in> set directions0"
    "odd_cell h w ?t" "cell_at ?m ?t = Wall"
    and cell2: "\<And>q. in_grid h w q \<Longrightarrow>
      cell_at m2 q = (if q = ?t \<or> q = ?mid then Open else cell_at ?m q)"
    using push_facts [OF stk gi ne xy ds scan s1 s2] by blast+
  have mid: "\<not> odd_cell h w ?mid"
    using push_geometry [OF stk gi ne xy ds scan s1 s2] by blast
  have mem: "?t \<in> set (grid_cells h w)"
    using odd_cell_in_grid [OF f(3)] by (simp add: set_grid_cells)
  have "length (filter (\<lambda>q. cell_at m2 q = Wall \<and> odd_cell h w q) (grid_cells h w)) +
          (if cell_at ?m ?t = Wall \<and> odd_cell h w ?t then 1 else 0) =
        length (filter (\<lambda>q. cell_at ?m q = Wall \<and> odd_cell h w q) (grid_cells h w)) +
          (if cell_at m2 ?t = Wall \<and> odd_cell h w ?t then 1 else 0)"
  proof (rule length_filter_change [OF grid_cells_distinct mem], intro ballI impI)
    fix q
    assume "q \<in> set (grid_cells h w)" and "q \<noteq> ?t"
    then show "(cell_at m2 q = Wall \<and> odd_cell h w q) = (cell_at ?m q = Wall \<and> odd_cell h w q)"
      using cell2 [of q] mid by (auto simp: set_grid_cells)
  qed
  moreover have "cell_at m2 ?t = Open"
    using cell2 [OF odd_cell_in_grid [OF f(3)]] by simp
  ultimately show ?thesis
    using f(3,4) by (simp add: closed_odd_count_def)
qed

lemma gen_iteration_pot:
  assumes gi: "gen_inv h w g" and inv: "dfs_inv h w g" and ne: "gstack g \<noteq> []"
    and it: "gen_iteration rs w h g = Some g'"
  shows "gen_pot h w g' + 1 = gen_pot h w g"
proof -
  have stk: "\<forall>p \<in> set (gstack g). odd_cell h w p \<and> cell_at (gmaze g) p = Open"
    using inv by (simp add: dfs_inv_def)
  from gi it show ?thesis
  proof (cases rule: gen_iteration_cases)
    case (pop x y ds k)
    then show ?thesis
      using ne by (simp add: gen_pot_def)
  next
    case (push x y ds k dx dy m1 m2)
    then show ?thesis
      using closed_odd_count_push [OF stk gi ne push(1-5)] by (simp add: gen_pot_def)
  qed
qed

lemma gen_init_pot:
  assumes "3 \<le> h" and "3 \<le> w" and o11: "cell_at m (1, 1) = Open"
    and only: "\<forall>p. in_grid h w p \<longrightarrow> cell_at m p = Open \<longrightarrow> p = (1, 1)"
  shows "gen_pot h w (gen_init k m) + 1 = 2 * odd_cell_count h w"
proof -
  have start: "odd_cell h w (1, 1)"
    using assms(1,2) by (simp add: odd_cell_def interior_def)
  have mem: "(1, 1) \<in> set (grid_cells h w)"
    using odd_cell_in_grid [OF start] by (simp add: set_grid_cells)
  have "length (filter (\<lambda>q. cell_at m q = Wall \<and> odd_cell h w q) (grid_cells h w)) +
          (if odd_cell h w (1, 1) then 1 else 0) =
        length (filter (odd_cell h w) (grid_cells h w)) +
          (if cell_at m (1, 1) = Wall \<and> odd_cell h w (1, 1) then 1 else 0)"
  proof (rule length_filter_change [OF grid_cells_distinct mem], intro ballI impI)
    fix q
    assume q: "q \<in> set (grid_cells h w)" and "q \<noteq> (1, 1)"
    have "in_grid h w q"
      using q by (simp add: set_grid_cells)
    then have "cell_at m q \<noteq> Open"
      using only \<open>q \<noteq> (1, 1)\<close> by blast
    then show "(cell_at m q = Wall \<and> odd_cell h w q) = odd_cell h w q"
      using cell_not_wall [of "cell_at m q"] by blast
  qed
  then have "closed_odd_count h w m + 1 = odd_cell_count h w"
    using start o11 by (simp add: closed_odd_count_def odd_cell_count_def)
  then show ?thesis
    by (simp add: gen_pot_def gen_init_def)
qed

lemma gen_pot_zero:
  assumes gi: "gen_inv h w g" and di: "dfs_inv h w g"
  shows "gstack g = [] \<longleftrightarrow> gen_pot h w g = 0"
proof
  assume empty: "gstack g = []"
  have "\<forall>p. odd_cell h w p \<longrightarrow> cell_at (gmaze g) p = Open"
    using dfs_inv_empty_all_odd [OF gi di empty] .
  then have "closed_odd_count h w (gmaze g) = 0"
    by (auto simp: closed_odd_count_def filter_empty_conv)
  then show "gen_pot h w g = 0"
    using empty by (simp add: gen_pot_def)
qed (simp add: gen_pot_def)

subsection \<open>The number of iterations\<close>

lemma gen_funpow:
  assumes h: "3 \<le> h" and w: "3 \<le> w" and dims: "grid_dims h w m"
    and bw: "border_walls h w m" and o11: "cell_at m (1, 1) = Open"
    and only: "\<forall>p. in_grid h w p \<longrightarrow> cell_at m p = Open \<longrightarrow> p = (1, 1)"
  shows "n \<le> 2 * odd_cell_count h w - 1 \<Longrightarrow>
           \<exists>g. (gen_body rs w h ^^ n) (Some (gen_init k m)) = Some g \<and> gen_inv h w g \<and>
               dfs_inv h w g \<and> gen_pot h w g + n = 2 * odd_cell_count h w - 1"
proof (induction n)
  case 0
  show ?case
    using gen_init_inv [OF h w dims bw o11] gen_init_dfs_inv [OF h w o11 only]
      gen_init_pot [OF h w o11 only, of k] by simp
next
  case (Suc n)
  then obtain g where g: "(gen_body rs w h ^^ n) (Some (gen_init k m)) = Some g"
    and gi: "gen_inv h w g" and di: "dfs_inv h w g"
    and pot: "gen_pot h w g + n = 2 * odd_cell_count h w - 1"
    by auto
  have "gen_pot h w g \<noteq> 0"
    using pot Suc.prems by linarith
  then have ne: "gstack g \<noteq> []"
    using gen_pot_zero [OF gi di] by simp
  obtain g' where it: "gen_iteration rs w h g = Some g'" and gi': "gen_inv h w g'"
    using gen_iteration_inv [OF gi ne] by blast
  have "dfs_inv h w g'"
    using gen_iteration_dfs_inv [OF gi di ne it] .
  moreover have "gen_pot h w g' + 1 = gen_pot h w g"
    using gen_iteration_pot [OF gi di ne it] .
  moreover have "(gen_body rs w h ^^ Suc n) (Some (gen_init k m)) = Some g'"
    using g it by (simp add: gen_body_def)
  ultimately show ?case
    using gi' pot by auto
qed

lemma generate_maze_iterations_count:
  assumes "3 \<le> width" and "3 \<le> height" and m0: "initialize_maze width height = Some m0"
  shows "(\<forall>n < 2 * odd_cell_count height width - 1.
            gen_continue ((gen_body rs width height ^^ n) (Some (gen_init k m0)))) \<and>
         \<not> gen_continue ((gen_body rs width height ^^ (2 * odd_cell_count height width - 1))
                            (Some (gen_init k m0))) \<and>
         generate_maze rs k m0 width height =
           Some (map_option gmaze ((gen_body rs width height ^^ (2 * odd_cell_count height width - 1))
                                    (Some (gen_init k m0))))"
proof -
  let ?M = "2 * odd_cell_count height width - 1" and ?s = "Some (gen_init k m0)"
  have v: "grid_dims height width m0" "border_walls height width m0" "cell_at m0 (1, 1) = Open"
    using initialize_maze_valid [OF assms] by simp_all
  have only: "\<forall>p. in_grid height width p \<longrightarrow> cell_at m0 p = Open \<longrightarrow> p = (1, 1)"
    using initialize_maze_only_start [OF _ _ m0] assms by simp
  note steps = gen_funpow [OF assms(2,1) v only, where rs = rs and k = k]
  have run: "\<forall>n < ?M. gen_continue ((gen_body rs width height ^^ n) ?s)"
  proof (intro allI impI)
    fix n
    assume "n < ?M"
    then obtain g where "(gen_body rs width height ^^ n) ?s = Some g" and "gen_inv height width g"
      and "dfs_inv height width g" and "gen_pot height width g \<noteq> 0"
      using steps [of n] by fastforce
    then show "gen_continue ((gen_body rs width height ^^ n) ?s)"
      using gen_pot_zero by (auto simp: gen_continue_def)
  qed
  have stop: "\<not> gen_continue ((gen_body rs width height ^^ ?M) ?s)"
  proof -
    obtain g where "(gen_body rs width height ^^ ?M) ?s = Some g" and "gen_inv height width g"
      and "dfs_inv height width g" and "gen_pot height width g = 0"
      using steps [of ?M] by auto
    then show ?thesis
      using gen_pot_zero by (auto simp: gen_continue_def)
  qed
  show ?thesis
    using run stop while_option_steps [OF run stop] by (simp add: generate_maze_def)
qed

subsection \<open>The number of odd cells\<close>

lemma odd_range_eq:
  fixes n :: int
  shows "{a. 0 \<le> a \<and> a \<le> n - 1 \<and> 1 \<le> a \<and> a < n - 1 \<and> odd a} = (\<lambda>k. 2 * k + 1) ` {0..<(n - 1) div 2}"
proof (intro set_eqI iffI)
  fix a
  assume "a \<in> {a. 0 \<le> a \<and> a \<le> n - 1 \<and> 1 \<le> a \<and> a < n - 1 \<and> odd a}"
  then have a: "1 \<le> a" "a < n - 1" "odd a"
    by auto
  then obtain k where k: "a = 2 * k + 1"
    by (metis oddE)
  then have "0 \<le> k" "k < (n - 1) div 2"
    using a by linarith+
  then show "a \<in> (\<lambda>k. 2 * k + 1) ` {0..<(n - 1) div 2}"
    using k by auto
next
  fix a
  assume "a \<in> (\<lambda>k. 2 * k + 1) ` {0..<(n - 1) div 2}"
  then obtain k where k: "a = 2 * k + 1" "0 \<le> k" "k < (n - 1) div 2"
    by auto
  then show "a \<in> {a. 0 \<le> a \<and> a \<le> n - 1 \<and> 1 \<le> a \<and> a < n - 1 \<and> odd a}"
    by auto
qed

lemma odd_range_count:
  fixes n :: int
  shows "length (filter (\<lambda>a. 1 \<le> a \<and> a < n - 1 \<and> odd a) [0..n - 1]) = nat ((n - 1) div 2)"
proof -
  have "length (filter (\<lambda>a. 1 \<le> a \<and> a < n - 1 \<and> odd a) [0..n - 1]) =
        card (set (filter (\<lambda>a. 1 \<le> a \<and> a < n - 1 \<and> odd a) [0..n - 1]))"
    by (rule distinct_card [symmetric]) simp
  also have "set (filter (\<lambda>a. 1 \<le> a \<and> a < n - 1 \<and> odd a) [0..n - 1]) =
             (\<lambda>k. 2 * k + 1) ` {0..<(n - 1) div 2}"
    using odd_range_eq [of n] by auto
  also have "card \<dots> = nat ((n - 1) div 2)"
    by (subst card_image) (auto simp: inj_on_def)
  finally show ?thesis .
qed

lemma odd_cell_count_eq: "odd_cell_count h w = nat ((h - 1) div 2) * nat ((w - 1) div 2)"
proof -
  let ?P = "\<lambda>a. 1 \<le> a \<and> a < h - 1 \<and> odd a" and ?Q = "\<lambda>b. 1 \<le> b \<and> b < w - 1 \<and> odd b"
  have "filter (odd_cell h w) (grid_cells h w) = filter (\<lambda>(a, b). ?P a \<and> ?Q b) (grid_cells h w)"
    by (rule filter_cong) (auto simp: odd_cell_def interior_def)
  then show ?thesis
    unfolding odd_cell_count_def grid_cells_def
    by (simp only: length_filter_product odd_range_count)
qed

text \<open>
  C8. The generator's loop runs exactly \<open>2 N - 1\<close> iterations, \<open>N\<close> the number of odd
  cells of the grid, \<open>(height - 1) div 2\<close> times \<open>(width - 1) div 2\<close>: for
  \<open>width, height \<ge> 3\<close> and every random stream, starting from the grid of
  \<open>initialize_maze\<close>, the stack is non-empty before each of the first \<open>2 N - 1\<close>
  iterations and empty after them, and \<open>generate_maze\<close> returns the maze they produce
  (the bound O(width \<times> height) of the specification, made exact).
\<close>

theorem generate_maze_iterations:
  assumes "3 \<le> width" and "3 \<le> height" and "initialize_maze width height = Some m0"
  defines "N \<equiv> nat ((height - 1) div 2) * nat ((width - 1) div 2)"
  shows "(\<forall>n < 2 * N - 1. gen_continue ((gen_body rs width height ^^ n) (Some (gen_init k m0)))) \<and>
         \<not> gen_continue ((gen_body rs width height ^^ (2 * N - 1)) (Some (gen_init k m0))) \<and>
         generate_maze rs k m0 width height =
           Some (map_option gmaze ((gen_body rs width height ^^ (2 * N - 1)) (Some (gen_init k m0))))"
  using generate_maze_iterations_count [OF assms(1-3), of rs k] odd_cell_count_eq [of height width]
  by (simp add: N_def)

theorem generate_maze_iterations_witness:
  "\<exists>m0. initialize_maze WIDTH HEIGHT = Some m0 \<and>
     (\<forall>n < 199. gen_continue ((gen_body (\<lambda>_. 0) WIDTH HEIGHT ^^ n) (Some (gen_init 0 m0)))) \<and>
     \<not> gen_continue ((gen_body (\<lambda>_. 0) WIDTH HEIGHT ^^ 199) (Some (gen_init 0 m0)))"
proof -
  obtain m0 where m0: "initialize_maze WIDTH HEIGHT = Some m0"
    using initialize_maze_Some [of WIDTH HEIGHT] by (simp add: WIDTH_def HEIGHT_def)
  have "3 \<le> WIDTH" and "3 \<le> HEIGHT"
    by (simp_all add: WIDTH_def HEIGHT_def)
  then show ?thesis
    using generate_maze_iterations [OF _ _ m0, of "\<lambda>_. 0" 0] m0 by (simp add: WIDTH_def HEIGHT_def)
qed

end
