(* ===== verification/Spec2Isabelle.thy ===== *)
theory Spec2Isabelle
  imports Winnable Render Generator_Steps
begin

text \<open>
  \<^bold>\<open>A verification of the maze game of \<open>src/maze_game.py\<close>.\<close>

  The program is one pygame module. At import it builds a \<open>HEIGHT \<times> WIDTH\<close> maze
  (\<open>initialize_maze\<close>, lines 30-33, then \<open>generate_maze\<close>, lines 37-54, a randomized
  depth-first search that calls \<open>random.shuffle\<close>), places the player at (1,1) and the
  exit at \<open>(HEIGHT - 2, WIDTH - 2)\<close>, opens the exit cell and sets the movement globals
  (lines 127-148). The main loop \<open>while True:\<close> (lines 150-223) then, in every frame,
  polls the event queue, runs the movement update while the game is being played
  (lines 158-196) and draws; it exits on \<open>QUIT\<close> or two seconds after the frame in
  which the player reaches the exit.

  \<^bold>\<open>Theories.\<close>
  \<^item> \<open>Maze_Prelude\<close>: cells (\<open>Wall\<close> for \<open>"#"\<close>, \<open>Open\<close> for \<open>" "\<close>), positions, and
    Python list indexing: \<open>py_nth\<close>, \<open>py_update\<close>, \<open>grid_get\<close>, \<open>grid_set\<close> wrap a
    negative index and return \<open>None\<close> for an \<open>IndexError\<close>; grid shape
    (\<open>grid_dims\<close>), interior and border (\<open>interior\<close>, \<open>border_walls\<close>), and the
    lemmas on reads and writes in range that the components share.
  \<^item> \<open>Shuffle\<close>: \<open>random.shuffle\<close> as CPython's Fisher-Yates loop over an abstract
    stream of draws (\<open>rs\<close>, read from position \<open>k\<close>); it permutes its list
    (\<open>random_shuffle_mset\<close>), and every permutation is the outcome of some stream
    (\<open>random_shuffle_outcomes\<close>). This is library code, modelled from its documented
    algorithm, not from this repository.
  \<^item> \<open>Maze_Graph\<close>: adjacency, the walks of open cells \<open>reach\<close> (an inductive
    relation), the odd cells the search visits and its steps of two.
  \<^item> \<open>Maze_Generator\<close>: \<open>initialize_maze\<close>, and \<open>generate_maze\<close> as
    \<open>while_option\<close> over the record \<open>gen_state\<close> (maze, stack, direction list,
    stream position), one iteration being \<open>gen_iteration\<close> and the \<open>for/else\<close>
    scan \<open>scan_directions\<close>. Lemma groups: termination (the measure \<open>gen_measure\<close>:
    twice the number of walls plus the stack's length); the loop invariant \<open>gen_inv\<close>
    (shape, border walls, no \<open>IndexError\<close>); the equivalence of the \<open>for/else\<close>
    scan with \<open>find\<close> for the first direction into an interior wall; the shuffle of
    each iteration, whose outcomes are exactly the permutations of the directions.
  \<^item> \<open>Generator_Steps\<close>: the exact number of iterations of the generator's loop,
    \<open>2 N - 1\<close> for \<open>N = ((height - 1) div 2) ((width - 1) div 2)\<close> odd cells (199 on
    the program's 21 by 21 grid), by the potential \<open>gen_pot\<close> (twice the odd cells
    still walls plus the stack's length), which every iteration lowers by exactly one.
  \<^item> \<open>Maze_Structure\<close>: the guarantees of the specification for the generated maze,
    as further loop invariants: connectivity (\<open>dfs_inv\<close>: every odd cell ends open and
    every open cell is reached from (1,1)) and the tree shape (\<open>tree_inv\<close>: every
    open cell is an odd cell or a passage between two, and there is one open odd cell
    more than open passages).
  \<^item> \<open>Movement\<close>: the globals of the movement update as the record \<open>game\<close>; the
    \<open>if/elif\<close> chain of lines 164-176 (\<open>select_direction\<close>, \<open>choose_direction\<close>),
    the timed move and acceleration (\<open>apply_move\<close>), the exit test (\<open>check_exit\<close>),
    composed as \<open>update_movement\<close>. Lemma groups: the play invariant \<open>play_inv\<close>
    (the player on an open interior cell, the delay in \<open>[50, 200]\<close>), the refinement
    of the \<open>if/elif\<close> chain by \<open>find\<close> over the priority list, and the behaviour of
    one frame on each branch: the direction is the first of Up, Down, Left, Right whose
    key is held and whose cell is open, a frame with none resets the delay, a timed move
    lowers it.
  \<^item> \<open>Game_Loop\<close>: \<open>WIDTH\<close>, \<open>HEIGHT\<close>, the event loop (\<open>process_events\<close>), one
    iteration of \<open>while True:\<close> (\<open>game_frame\<close>, its result \<open>Running\<close>, \<open>Quit_exit\<close>
    or \<open>Win_exit\<close>), a sequence of frames (\<open>run_frames\<close>) and the setup
    (\<open>setup_game\<close>). Lemma groups: the invariant \<open>game_inv\<close> kept by every frame;
    the phases (start screen, first key, quit, win) and their refinement of the phase
    machine of the specification; the delay over a held run, lowered once per move made
    (\<open>move_count\<close>); the speed limit (\<open>move_count\<close> moves take at least 51 ms of
    clock each); and the \<open>IndexError\<close> of a maze of height 2, which setup accepts.
  \<^item> \<open>Winnable\<close>: a walk of open cells played as frames, one arrow key per step, so
    that every game on odd dimensions can be won; and the converse for even
    dimensions, where every frame keeps the player on a cell reached from (1,1) and the
    exit is walled in.
  \<^item> \<open>Render\<close>: the drawing code (lines 7-18, 57-124, 198-223) as display lists of
    commands, one per call on the screen, and a conservative pixel semantics
    (\<open>screen_color\<close>); the window of line 21 is the rectangle \<open>screen\<close>. Lemma
    groups: the picture of the maze reads back as the maze and tiles the window pixel by
    pixel; a frame of play shows the player and the exit on their own cells; the only
    pause is the one after the win message; \<open>pygame.quit()\<close> releases the display on
    both exit paths, as the last command of the exiting frame, and only there.
  \<^item> this theory: the whole program (\<open>run_program\<close> on any dimensions,
    \<open>maze_game\<close> on the program's own 21 by 21) and the properties that span the
    components: it never raises on a grid of at least 3 by 3, it can always be won on odd
    dimensions (the 21 by 21 game among them), it can never be won when both dimensions
    are even, and on a 3 by 3 grid the first key press wins.

  \<^bold>\<open>How code and model correspond.\<close> The module's globals are the fields of
  \<open>game\<close>; each operation returns the record updated. Every \<open>maze[i][j]\<close> is a
  \<open>grid_get\<close> or \<open>grid_set\<close>, so each \<open>IndexError\<close> the code can raise is a
  \<open>None\<close> of the model. Integers are Python's, unbounded, so \<open>int\<close>. A frame's input
  (\<open>frame_input\<close>) is what pygame hands the loop: the queued events, the reading of
  \<open>pygame.time.get_ticks()\<close> and the arrow keys held. The random generator is the
  stream \<open>rs\<close>; theorems quantify over all streams, so they hold for every seed.

  \<^bold>\<open>Bounds and fuel.\<close> No fuel is used. The generator's \<open>while stack:\<close> loop is
  \<open>while_option\<close>, and a theorem of \<open>Maze_Generator\<close> proves that it returns on every
  input (each iteration pops or turns a wall into a path), and \<open>Generator_Steps\<close>
  that from the grid of \<open>initialize_maze\<close> it runs exactly \<open>2 N - 1\<close> iterations.
  The main loop \<open>while True:\<close> does not terminate by design; it is modelled frame by frame, and
  its properties hold for every finite sequence of frames.

  \<^bold>\<open>Not modelled.\<close> The pygame runtime (lines 1-3, 20 and 22-26: imports,
  \<open>pygame.init\<close>, the caption and the loading of the fonts; the event queue, the
  clock, the key state, what \<open>pygame.quit\<close> and \<open>sys.exit\<close> do inside pygame and
  Python): its results enter as the frame inputs, exiting is a result of
  \<open>game_frame\<close> and the call of \<open>pygame.quit\<close> a command of the display list, and
  what it does on the real screen (font metrics, glyphs, alpha blending) is left
  uncertain by the pixel semantics of \<open>Render\<close>, which draws no conclusion about the
  points text or the overlay may touch.
\<close>

subsection \<open>The whole program\<close>

text \<open>
  The module's top level (lines 127-223): build the maze and the globals, then run the
  main loop over the frames it is handed. The outer \<open>None\<close> would be a generation that
  never ends, the inner \<open>None\<close> an uncaught \<open>IndexError\<close>; \<open>Some (Some r)\<close> is how
  the program stands after the frames: still running, or exited.
\<close>

definition run_program ::
  "int \<Rightarrow> int \<Rightarrow> rng \<Rightarrow> nat \<Rightarrow> int \<Rightarrow> frame_input list \<Rightarrow> frame_result option option" where
  "run_program width height rs k t0 inputs =
     (case setup_game width height rs k t0 of
        None \<Rightarrow> None
      | Some None \<Rightarrow> Some None
      | Some (Some g) \<Rightarrow> Some (run_frames g inputs))"

definition maze_game :: "rng \<Rightarrow> nat \<Rightarrow> int \<Rightarrow> frame_input list \<Rightarrow> frame_result option option" where
  "maze_game rs k t0 inputs = run_program WIDTH HEIGHT rs k t0 inputs"

subsection \<open>Properties of the whole program\<close>

lemma run_program_inv:
  assumes "3 \<le> width" and "3 \<le> height"
  shows "\<exists>g0 r. setup_game width height rs k t0 = Some (Some g0) \<and>
           run_program width height rs k t0 inputs = Some (Some r) \<and>
           game_inv height width g0 \<and> frame_ok height width g0 r"
proof -
  obtain g0 where s: "setup_game width height rs k t0 = Some (Some g0)"
    and inv: "game_inv height width g0"
    using setup_game_inv [OF assms, of rs k t0] by blast
  obtain r where "run_frames g0 inputs = Some r" and "frame_ok height width g0 r"
    using run_frames_inv [OF inv] by blast
  then show ?thesis
    using s inv by (simp add: run_program_def)
qed

text \<open>
  C1. The program never fails: for every grid of at least 3 by 3 cells, every random
  stream, clock reading and sequence of frames, setup and the main loop raise no
  \<open>IndexError\<close>. While it runs, the maze and the exit are the ones built at setup, the
  player stands on an open interior cell, and the delay stays within
  \<open>[min_move_delay, initial_move_delay]\<close>. When it ends with the win message, the
  player is on the exit.
\<close>

theorem run_program_safe:
  assumes "3 \<le> width" and "3 \<le> height"
  shows "\<exists>g0 r. setup_game width height rs k t0 = Some (Some g0) \<and>
           run_program width height rs k t0 inputs = Some (Some r) \<and>
           (\<forall>g. r = Running g \<longrightarrow>
              maze g = maze g0 \<and> exit_pos g = (height - 2, width - 2) \<and>
              cell_at (maze g) (player_pos g) = Open \<and> interior height width (player_pos g) \<and>
              min_move_delay \<le> move_delay g \<and> move_delay g \<le> initial_move_delay) \<and>
           (\<forall>g. r = Win_exit g \<longrightarrow>
              maze g = maze g0 \<and> player_pos g = exit_pos g \<and>
              exit_pos g = (height - 2, width - 2))"
proof -
  obtain g0 r where s: "setup_game width height rs k t0 = Some (Some g0)"
    and run: "run_program width height rs k t0 inputs = Some (Some r)"
    and inv: "game_inv height width g0" and ok: "frame_ok height width g0 r"
    using run_program_inv [OF assms] by blast
  have "interior height width (player_pos g)" if "game_inv height width g" for g
    using that by (simp add: game_inv_def play_inv_interior)
  then show ?thesis
    using s run inv ok
    by (cases r) (auto simp: frame_ok_def game_inv_def play_inv_def)
qed

theorem run_program_safe_witness:
  "\<exists>g0 r. setup_game 5 5 (\<lambda>_. 0) 0 0 = Some (Some g0) \<and>
     run_program 5 5 (\<lambda>_. 0) 0 0 [] = Some (Some r) \<and>
     (\<forall>g. r = Running g \<longrightarrow>
        maze g = maze g0 \<and> exit_pos g = (5 - 2, 5 - 2) \<and>
        cell_at (maze g) (player_pos g) = Open \<and> interior 5 5 (player_pos g) \<and>
        min_move_delay \<le> move_delay g \<and> move_delay g \<le> initial_move_delay) \<and>
     (\<forall>g. r = Win_exit g \<longrightarrow> maze g = maze g0 \<and> player_pos g = exit_pos g \<and>
        exit_pos g = (5 - 2, 5 - 2))"
  by (rule run_program_safe) simp_all

text \<open>
  C2. The game can always be won: for every grid whose width and height are odd and at
  least 3, every random stream and every clock reading at setup, some sequence of frames
  makes the program exit with the win message.
\<close>

theorem run_program_winnable:
  assumes "3 \<le> width" and "odd width" and "3 \<le> height" and "odd height"
  shows "\<exists>inputs g. run_program width height rs k t0 inputs = Some (Some (Win_exit g))"
proof -
  obtain g fs g' where "setup_game width height rs k t0 = Some (Some g)"
    and "run_frames g fs = Some (Win_exit g')"
    using setup_game_winnable [OF assms, of rs k t0] by blast
  then have "run_program width height rs k t0 fs = Some (Some (Win_exit g'))"
    by (simp add: run_program_def)
  then show ?thesis
    by blast
qed

theorem run_program_winnable_witness:
  "\<exists>inputs g. maze_game (\<lambda>_. 0) 0 0 inputs = Some (Some (Win_exit g))"
  using run_program_winnable [of WIDTH HEIGHT "\<lambda>_. 0" 0 0]
  by (simp add: maze_game_def WIDTH_def HEIGHT_def)

text \<open>
  C5. With even dimensions the game cannot be won. The code never rejects an even
  \<open>WIDTH\<close> or \<open>HEIGHT\<close> (the comment of line 6 asks for odd numbers; the
  specification asks for even dimensions to be rejected before generation). When both
  are even and at least 4, the exit is walled in on all four sides, and no sequence of
  frames ends the program with the win message, for any random stream.
\<close>

theorem run_program_even_unwinnable:
  assumes "even width" and "even height" and "4 \<le> width" and "4 \<le> height"
  shows "run_program width height rs k t0 inputs \<noteq> Some (Some (Win_exit g))"
proof
  assume run: "run_program width height rs k t0 inputs = Some (Some (Win_exit g))"
  have "3 \<le> width" and "3 \<le> height"
    using assms by simp_all
  then obtain g0 where s: "setup_game width height rs k t0 = Some (Some g0)"
    using setup_game_inv by blast
  then have "run_frames g0 inputs = Some (Win_exit g)"
    using run by (simp add: run_program_def)
  then show False
    using setup_game_even_unwinnable [OF assms s] by blast
qed

theorem run_program_even_unwinnable_witness:
  "run_program 4 4 (\<lambda>_. 0) 0 0 [\<lparr>events = [KEYDOWN], ticks = 1000, pressed = keys_only RIGHT\<rparr>]
     \<noteq> Some (Some (Win_exit demo_game))"
  using run_program_even_unwinnable [of 4 4] by simp

text \<open>
  C28. On the smallest grid the specification admits, 3 by 3, the start (1,1) is the exit
  \<open>(HEIGHT - 2, WIDTH - 2)\<close>: the first key press wins the game, whatever keys are held,
  whatever the clock and the random stream.
\<close>

theorem run_program_3x3_first_key_wins:
  "\<exists>g. run_program 3 3 rs k t0 [\<lparr>events = [KEYDOWN], ticks = t, pressed = ks\<rparr>] = Some (Some (Win_exit g))"
proof -
  obtain g0 where s: "setup_game 3 3 rs k t0 = Some (Some g0)" and inv: "game_inv 3 3 g0"
    and ds: "display_start_message g0"
    using setup_game_inv [of 3 3 rs k t0] by auto
  obtain g where "game_frame g0 \<lparr>events = [KEYDOWN], ticks = t, pressed = ks\<rparr> = Some (Win_exit g)"
    using three_by_three_first_key [OF inv ds, of "\<lparr>events = [KEYDOWN], ticks = t, pressed = ks\<rparr>"]
    by auto
  then show ?thesis
    using s by (simp add: run_program_def)
qed

end
